theory Spec2Isabelle
  imports Complex_Main "HOL-Library.Word"
begin

unbundle bit_operations_syntax

section \<open>Sequential GUID generator (src/src/SequentialGuidGenerator.ts)\<close>

text \<open>
  A shallow embedding of the class \<open>SequentialGuidGenerator\<close>. JavaScript numbers that
  hold integers are \<open>int\<close>; the bitwise operators go through 32-bit words, as ECMAScript's
  ToInt32/ToUint32 do. A \<open>Buffer\<close> is a list of bytes, a JavaScript string a \<open>string\<close>.
  A thrown \<open>Error\<close> is a value of type \<open>error\<close>; a call that never returns is \<open>None\<close>.
\<close>

subsection \<open>Errors\<close>

text \<open>
  \<open>InvalidMachineId\<close> is \<open>Error('Machine ID must be exactly 4 bytes')\<close>,
  \<open>InvalidCount\<close> is \<open>Error('Count must be a positive number')\<close>,
  \<open>InvalidFormat\<close> is \<open>Error('Invalid GUID format')\<close>, and \<open>OutOfRange\<close> is the
  RangeError that Node's Buffer readers and writers throw for an offset that leaves the
  buffer or a value that does not fit the field.
\<close>

datatype error = InvalidMachineId | InvalidCount | InvalidFormat | OutOfRange

subsection \<open>JavaScript's 32-bit bitwise operators\<close>

definition js_and :: "int \<Rightarrow> int \<Rightarrow> int" where
  "js_and x y = sint ((word_of_int x :: 32 word) AND word_of_int y)"

definition js_or :: "int \<Rightarrow> int \<Rightarrow> int" where
  "js_or x y = sint ((word_of_int x :: 32 word) OR word_of_int y)"

definition js_shl :: "int \<Rightarrow> nat \<Rightarrow> int" where
  "js_shl x n = sint (push_bit (n mod 32) (word_of_int x :: 32 word))"

definition js_ushr :: "int \<Rightarrow> nat \<Rightarrow> int" where
  "js_ushr x n = uint (drop_bit (n mod 32) (word_of_int x :: 32 word))"

subsection \<open>Buffers\<close>

type_synonym byte = "8 word"
type_synonym buffer = "byte list"

definition Buffer_alloc :: "nat \<Rightarrow> buffer" where
  "Buffer_alloc n = replicate n 0"

definition writeUInt32BE :: "int \<Rightarrow> nat \<Rightarrow> buffer \<Rightarrow> error + buffer" where
  "writeUInt32BE v off buf =
     (if length buf < off + 4 \<or> v < 0 \<or> 2 ^ 32 \<le> v then Inl OutOfRange
      else Inr (buf[off := word_of_int (v div 2 ^ 24),
                    off + 1 := word_of_int (v div 2 ^ 16),
                    off + 2 := word_of_int (v div 2 ^ 8),
                    off + 3 := word_of_int v]))"

definition writeUInt16BE :: "int \<Rightarrow> nat \<Rightarrow> buffer \<Rightarrow> error + buffer" where
  "writeUInt16BE v off buf =
     (if length buf < off + 2 \<or> v < 0 \<or> 2 ^ 16 \<le> v then Inl OutOfRange
      else Inr (buf[off := word_of_int (v div 2 ^ 8),
                    off + 1 := word_of_int v]))"

definition readUInt32BE :: "buffer \<Rightarrow> nat \<Rightarrow> error + int" where
  "readUInt32BE buf off =
     (if length buf < off + 4 then Inl OutOfRange
      else Inr (uint (buf ! off) * 2 ^ 24 + uint (buf ! (off + 1)) * 2 ^ 16
                + uint (buf ! (off + 2)) * 2 ^ 8 + uint (buf ! (off + 3))))"

definition readUInt16BE :: "buffer \<Rightarrow> nat \<Rightarrow> error + int" where
  "readUInt16BE buf off =
     (if length buf < off + 2 then Inl OutOfRange
      else Inr (uint (buf ! off) * 2 ^ 8 + uint (buf ! (off + 1))))"

text \<open>\<open>src.copy(target, targetStart)\<close>: as many bytes of \<open>src\<close> as fit are written.\<close>

definition Buffer_copy :: "buffer \<Rightarrow> buffer \<Rightarrow> nat \<Rightarrow> buffer" where
  "Buffer_copy src target targetStart =
     (let n = min (length src) (length target - targetStart)
      in take targetStart target @ take n src @ drop (targetStart + n) target)"

subsection \<open>Hexadecimal text\<close>

definition hex_digit :: "nat \<Rightarrow> char" where
  "hex_digit n = ''0123456789abcdef'' ! n"

definition byte_hex :: "byte \<Rightarrow> string" where
  "byte_hex b = [hex_digit (unat (drop_bit 4 b)), hex_digit (unat (b AND 15))]"

text \<open>\<open>buf.toString('hex', start, end)\<close>: lower-case digits, the range clamped to the buffer.\<close>

definition toString_hex :: "buffer \<Rightarrow> nat \<Rightarrow> nat \<Rightarrow> string" where
  "toString_hex buf start end = concat (map byte_hex (take (end - start) (drop start buf)))"

text \<open>
  \<open>String.prototype.toUpperCase\<close> on the ASCII letters; the generator only applies it to
  the output of \<open>toString('hex')\<close>.
\<close>

definition toUpperCase_char :: "char \<Rightarrow> char" where
  "toUpperCase_char c =
     (case map_of (zip ''abcdefghijklmnopqrstuvwxyz'' ''ABCDEFGHIJKLMNOPQRSTUVWXYZ'') c of
        Some u \<Rightarrow> u
      | None \<Rightarrow> c)"

definition toUpperCase :: "string \<Rightarrow> string" where
  "toUpperCase s = map toUpperCase_char s"

fun join :: "string \<Rightarrow> string list \<Rightarrow> string" where
  "join sep [] = []"
| "join sep [p] = p"
| "join sep (p # q # ps) = p @ sep @ join sep (q # ps)"

text \<open>
  \<open>Buffer.from(text, 'hex')\<close>: two digits make a byte; decoding stops at the first pair
  that is not two hexadecimal digits, and a trailing single character is dropped.
\<close>

definition hex_value :: "char \<Rightarrow> nat option" where
  "hex_value c =
     map_of (zip ''0123456789abcdefABCDEF''
                 [0, 1, 2, 3, 4, 5, 6, 7, 8, 9, 10, 11, 12, 13, 14, 15, 10, 11, 12, 13, 14,
                     15]) c"

fun Buffer_from_hex :: "string \<Rightarrow> buffer" where
  "Buffer_from_hex (a # b # rest) =
     (case hex_value a of
        None \<Rightarrow> []
      | Some h \<Rightarrow>
          (case hex_value b of
             None \<Rightarrow> []
           | Some l \<Rightarrow> word_of_nat (16 * h + l) # Buffer_from_hex rest))"
| "Buffer_from_hex _ = []"

subsection \<open>Regular expressions of the shape used by the validator\<close>

text \<open>
  The validator's expression is anchored at both ends and is a sequence of literal
  characters and character classes repeated a fixed number of times, matched with the
  \<open>i\<close> flag. A class is a list of ranges. Under the \<open>i\<close> flag a character matches when
  its canonical (upper-case) form is the canonical form of a member of the class.
\<close>

type_synonym char_class = "(char \<times> char) list"

datatype piece = Lit char | Rep char_class nat

definition range_chars :: "char \<Rightarrow> char \<Rightarrow> string" where
  "range_chars lo hi = map char_of [of_char lo ..< Suc (of_char hi) :: nat]"

definition class_chars :: "char_class \<Rightarrow> string" where
  "class_chars cls = concat (map (\<lambda>(lo, hi). range_chars lo hi) cls)"

definition class_matches_i :: "char_class \<Rightarrow> char \<Rightarrow> bool" where
  "class_matches_i cls c =
     list_ex (\<lambda>a. toUpperCase_char a = toUpperCase_char c) (class_chars cls)"

fun regex_test :: "piece list \<Rightarrow> string \<Rightarrow> bool" where
  "regex_test [] s = (s = [])"
| "regex_test (Lit c # ps) [] = False"
| "regex_test (Lit c # ps) (x # xs) =
     (toUpperCase_char x = toUpperCase_char c \<and> regex_test ps xs)"
| "regex_test (Rep cls 0 # ps) s = regex_test ps s"
| "regex_test (Rep cls (Suc n) # ps) [] = False"
| "regex_test (Rep cls (Suc n) # ps) (x # xs) =
     (class_matches_i cls x \<and> regex_test (Rep cls n # ps) xs)"

subsection \<open>The codec: \<open>isValidGuid\<close>, \<open>guidToBuffer\<close>, \<open>formatGuid\<close>\<close>

definition hex_class :: char_class where
  "hex_class = [(CHR ''0'', CHR ''9''), (CHR ''a'', CHR ''f'')]"

definition guidRegex :: "piece list" where
  "guidRegex =
     [Rep hex_class 8, Lit CHR ''-'', Rep hex_class 4, Lit CHR ''-'', Rep hex_class 4,
      Lit CHR ''-'', Rep hex_class 4, Lit CHR ''-'', Rep hex_class 12]"

definition isValidGuid :: "string \<Rightarrow> bool" where
  "isValidGuid guid = regex_test guidRegex guid"

definition guidToBuffer :: "string \<Rightarrow> error + buffer" where
  "guidToBuffer guid =
     (if \<not> isValidGuid guid then Inl InvalidFormat
      else (let cleanGuid = filter (\<lambda>c. c \<noteq> CHR ''-'') guid
            in Inr (Buffer_from_hex cleanGuid)))"

definition formatGuid :: "buffer \<Rightarrow> string" where
  "formatGuid buffer =
     (let parts = [toString_hex buffer 0 4, toString_hex buffer 4 6, toString_hex buffer 6 8,
                   toString_hex buffer 8 10, toString_hex buffer 10 16]
      in join ''-'' (map toUpperCase parts))"

subsection \<open>The environment: clock and random source\<close>

text \<open>
  \<open>Date.now()\<close> and \<open>crypto.randomBytes\<close> are the generator's two inputs from outside.
  The world holds the whole sequence of values the clock will return and of bytes the
  random source will deliver, with the number already consumed; a call returns the next
  ones and advances the count.
\<close>

record world =
  clock :: "nat \<Rightarrow> int"
  clock_reads :: nat
  entropy :: "nat \<Rightarrow> byte"
  entropy_used :: nat

definition Date_now :: "world \<Rightarrow> int \<times> world" where
  "Date_now w = (clock w (clock_reads w), w\<lparr>clock_reads := Suc (clock_reads w)\<rparr>)"

definition randomBytes :: "nat \<Rightarrow> world \<Rightarrow> buffer \<times> world" where
  "randomBytes n w =
     (map (entropy w) [entropy_used w ..< entropy_used w + n],
      w\<lparr>entropy_used := entropy_used w + n\<rparr>)"

subsection \<open>The generator\<close>

text \<open>
  \<open>epoch\<close> is \<open>this.epoch.getTime()\<close>, a whole number of milliseconds (the epoch is a
  valid \<open>Date\<close>). \<open>lastTimestamp\<close> and \<open>sequence\<close> hold integers throughout.
\<close>

record generator =
  machineId :: buffer
  epoch :: int
  lastTimestamp :: int
  sequence :: int

definition EPOCH :: int where
  "EPOCH = - 2208988800000"

definition TICKS_PER_MILLISECOND :: int where
  "TICKS_PER_MILLISECOND = 10000"

definition generateMachineId :: "world \<Rightarrow> buffer \<times> world" where
  "generateMachineId w =
     (let id = Buffer_alloc 4
      in case randomBytes 4 w of (r, w') \<Rightarrow> (Buffer_copy r id 0, w'))"

text \<open>
  The constructor. \<open>options.machineId || this.generateMachineId()\<close> draws random bytes
  only when no machine id is supplied (a \<open>Buffer\<close> is truthy whatever its length).
\<close>

definition new_generator ::
  "buffer option \<Rightarrow> int option \<Rightarrow> world \<Rightarrow> (error + generator) \<times> world" where
  "new_generator opt_machineId opt_epoch w =
     (case (case opt_machineId of Some m \<Rightarrow> (m, w) | None \<Rightarrow> generateMachineId w) of
        (mid, w') \<Rightarrow>
          (let ep = (case opt_epoch of Some e \<Rightarrow> e | None \<Rightarrow> EPOCH)
           in if length mid \<noteq> 4 then (Inl InvalidMachineId, w')
              else (Inr \<lparr>machineId = mid, epoch = ep, lastTimestamp = 0, sequence = 0\<rparr>, w')))"

definition getMachineId :: "generator \<Rightarrow> string" where
  "getMachineId g = toUpperCase (toString_hex (machineId g) 0 (length (machineId g)))"

text \<open>
  The busy wait \<open>while (Date.now() <= now) {}\<close>: it reads the clock until a reading
  exceeds \<open>now\<close>. On a clock that never does, it does not return: the value is \<open>None\<close>.
\<close>

partial_function (option) busy_wait :: "int \<Rightarrow> world \<Rightarrow> world option" where
  "busy_wait now w =
     (case Date_now w of (t, w') \<Rightarrow> if t \<le> now then busy_wait now w' else Some w')"

declare busy_wait.simps [code]

text \<open>
  \<open>getTimestamp\<close>. \<open>Math.floor(milliseconds * 10000)\<close> is the exact product: both factors
  are integers, and the product is a multiple of 16, which a double holds exactly as long
  as \<open>milliseconds * 625\<close> stays below \<open>2 ^ 53\<close> in absolute value (some 450 years). The
  recursion after the wait is at most one level deep, since the call is made with
  \<open>sequence = 0\<close>.
\<close>

function getTimestamp ::
  "int \<Rightarrow> generator \<times> world \<Rightarrow> (int \<times> generator \<times> world) option" where
  "getTimestamp now (g, w) =
     (let milliseconds = now - epoch g;
          ticks = milliseconds * TICKS_PER_MILLISECOND
      in if ticks = lastTimestamp g then
           (let g1 = g\<lparr>sequence := js_and (sequence g + 1) 0x000F\<rparr>
            in if sequence g1 = 0 then
                 (case busy_wait now w of
                    None \<Rightarrow> None
                  | Some w1 \<Rightarrow>
                      (case Date_now w1 of (now', w2) \<Rightarrow> getTimestamp now' (g1, w2)))
               else Some (ticks, g1\<lparr>lastTimestamp := ticks\<rparr>, w))
         else (let g1 = g\<lparr>sequence := 0\<rparr>
               in Some (ticks, g1\<lparr>lastTimestamp := ticks\<rparr>, w)))"
  by pat_completeness auto
termination
  apply (relation "measure (\<lambda>(now, g, w).
           if (now - epoch g) * TICKS_PER_MILLISECOND = lastTimestamp g
              \<and> js_and (sequence g + 1) 0x000F = 0 then 1 else 0)")
   apply simp
  apply (simp add: js_and_def)
  done

text \<open>
  The part of \<open>generate\<close> that fills the first ten bytes of the buffer; each writer and
  reader may throw.
\<close>

definition bind_err :: "error + 'a \<Rightarrow> ('a \<Rightarrow> error + 'b) \<Rightarrow> error + 'b" where
  "bind_err r f = (case r of Inl e \<Rightarrow> Inl e | Inr x \<Rightarrow> f x)"

definition write_prefix :: "int \<Rightarrow> generator \<Rightarrow> error + buffer" where
  "write_prefix timestamp g =
     bind_err (writeUInt32BE (js_ushr timestamp 16) 0 (Buffer_alloc 16)) (\<lambda>guid1.
     bind_err (writeUInt16BE (js_and timestamp 0xFFFF) 4 guid1) (\<lambda>guid2.
     bind_err (readUInt16BE (machineId g) 0) (\<lambda>m0.
     bind_err (writeUInt16BE (js_or (js_and m0 0xFFF0) (js_and (sequence g) 0x000F)) 6 guid2)
       (\<lambda>guid3.
     bind_err (readUInt16BE (machineId g) 2) (\<lambda>m2.
     writeUInt16BE m2 8 guid3)))))"

text \<open>
  \<open>generate\<close> returns the outcome (the identifier, or the error thrown) with the
  generator and world as the call leaves them; \<open>None\<close> when the call never returns.
\<close>

definition generate ::
  "generator \<times> world \<Rightarrow> ((error + string) \<times> generator \<times> world) option" where
  "generate gw =
     (case gw of (g, w) \<Rightarrow>
      case Date_now w of (now, w1) \<Rightarrow>
      case getTimestamp now (g, w1) of
        None \<Rightarrow> None
      | Some (timestamp, g', w2) \<Rightarrow>
          (case write_prefix timestamp g' of
             Inl e \<Rightarrow> Some (Inl e, g', w2)
           | Inr guid \<Rightarrow>
               (case randomBytes 6 w2 of
                  (randomPart, w3) \<Rightarrow>
                    Some (Inr (formatGuid (Buffer_copy randomPart guid 10)), g', w3))))"

function batch_loop ::
  "int \<Rightarrow> int \<Rightarrow> string list \<Rightarrow> generator \<times> world
     \<Rightarrow> ((error + string list) \<times> generator \<times> world) option" where
  "batch_loop i count guids gw =
     (if i < count then
        (case generate gw of
           None \<Rightarrow> None
         | Some (Inl e, gw') \<Rightarrow> Some (Inl e, gw')
         | Some (Inr guid, gw') \<Rightarrow> batch_loop (i + 1) count (guids @ [guid]) gw')
      else Some (Inr guids, gw))"
  by pat_completeness auto
termination
  by (relation "measure (\<lambda>(i, count, guids, gw). nat (count - i))") auto

definition generateBatch ::
  "int \<Rightarrow> generator \<times> world \<Rightarrow> ((error + string list) \<times> generator \<times> world) option" where
  "generateBatch count gw =
     (if count \<le> 0 then Some (Inl InvalidCount, gw) else batch_loop 0 count [] gw)"

text \<open>
  \<open>extractTimestamp\<close>. The value returned is the exact number \<open>epoch + timestamp / 10000\<close>
  handed to \<open>new Date\<close>; the rounding of the quotient and the sum to doubles and the
  \<open>Date\<close> constructor's cut to whole milliseconds are left out.
\<close>

definition extractTimestamp :: "generator \<Rightarrow> string \<Rightarrow> error + rat" where
  "extractTimestamp g guid =
     bind_err (guidToBuffer guid) (\<lambda>buffer.
     bind_err (readUInt32BE buffer 0) (\<lambda>timestampHigh.
     bind_err (readUInt16BE buffer 4) (\<lambda>timestampLow.
       (let timestamp = js_or (js_shl timestampHigh 16) timestampLow;
            millisecondsSinceEpoch = of_int timestamp / of_int TICKS_PER_MILLISECOND
        in Inr (of_int (epoch g) + millisecondsSinceEpoch)))))"

subsection \<open>The validator in the specification's words\<close>

text \<open>
  A textual identifier is well formed when it is five groups of 8, 4, 4, 4 and 12
  hexadecimal digits of either case, joined by hyphens, and nothing else.
\<close>

definition is_hex_digit :: "char \<Rightarrow> bool" where
  "is_hex_digit c \<longleftrightarrow> c \<in> set ''0123456789abcdefABCDEF''"

definition spec_isValid :: "string \<Rightarrow> bool" where
  "spec_isValid text \<longleftrightarrow>
     (let groups = [take 8 text, take 4 (drop 9 text), take 4 (drop 14 text),
                    take 4 (drop 19 text), drop 24 text]
      in map length groups = [8, 4, 4, 4, 12] \<and>
         list_all (list_all is_hex_digit) groups \<and>
         text = join ''-'' groups)"

subsection \<open>Hexadecimal decoding in the specification's words\<close>

text \<open>
  The value of a hexadecimal digit, read off its character code, and the 16 bytes that a
  textual identifier stands for: with the hyphens taken out, byte \<open>i\<close> is sixteen times
  the value of digit \<open>2 i\<close> plus the value of digit \<open>2 i + 1\<close>.
\<close>

definition spec_hex_digit_value :: "char \<Rightarrow> nat" where
  "spec_hex_digit_value c =
     (let n = (of_char c :: nat)
      in if 48 \<le> n \<and> n \<le> 57 then n - 48
         else if 97 \<le> n \<and> n \<le> 102 then n - 87
         else if 65 \<le> n \<and> n \<le> 70 then n - 55
         else 0)"

definition spec_hex_decode :: "string \<Rightarrow> buffer" where
  "spec_hex_decode guid =
     (let digits = filter (\<lambda>c. c \<noteq> CHR ''-'') guid
      in map (\<lambda>i. word_of_nat (16 * spec_hex_digit_value (digits ! (2 * i)) +
                                 spec_hex_digit_value (digits ! (2 * i + 1))))
             [0..<16])"

subsection \<open>Auxiliary notions for the proofs\<close>

fun piece_len :: "piece \<Rightarrow> nat" where
  "piece_len (Lit c) = 1"
| "piece_len (Rep cls n) = n"

text \<open>The two upper-case digits that \<open>formatGuid\<close> prints for a byte.\<close>

definition up_hi :: "byte \<Rightarrow> char" where
  "up_hi b = toUpperCase_char (hex_digit (unat (drop_bit 4 b)))"

definition up_lo :: "byte \<Rightarrow> char" where
  "up_lo b = toUpperCase_char (hex_digit (unat (b AND 15)))"

text \<open>The tick that \<open>getTimestamp\<close> computes from a clock reading.\<close>

definition tick_of :: "generator \<Rightarrow> int \<Rightarrow> int" where
  "tick_of g now = (now - epoch g) * TICKS_PER_MILLISECOND"

text \<open>
  The two half-words of the machine id as \<open>readUInt16BE\<close> returns them, and the ten
  bytes that \<open>generate\<close> writes for a tick and a generator state.
\<close>

definition machine_high :: "generator \<Rightarrow> int" where
  "machine_high g = uint (machineId g ! 0) * 2 ^ 8 + uint (machineId g ! 1)"

definition machine_low :: "generator \<Rightarrow> int" where
  "machine_low g = uint (machineId g ! 2) * 2 ^ 8 + uint (machineId g ! 3)"

definition prefix_bytes :: "int \<Rightarrow> generator \<Rightarrow> buffer" where
  "prefix_bytes t g =
     (let hi = js_ushr t 16; lo = js_and t 0xFFFF;
          ms = js_or (js_and (machine_high g) 0xFFF0) (js_and (sequence g) 0x000F);
          ml = machine_low g
      in [word_of_int (hi div 2 ^ 24), word_of_int (hi div 2 ^ 16), word_of_int (hi div 2 ^ 8),
          word_of_int hi, word_of_int (lo div 2 ^ 8), word_of_int lo,
          word_of_int (ms div 2 ^ 8), word_of_int ms,
          word_of_int (ml div 2 ^ 8), word_of_int ml])"

text \<open>The six bytes that the next call of \<open>randomBytes 6\<close> returns.\<close>

definition drawn :: "world \<Rightarrow> buffer" where
  "drawn w = map (entropy w) [entropy_used w ..< entropy_used w + 6]"

subsection \<open>Notions used to state the claims about generation\<close>

text \<open>
  A clock keeps advancing when every reading is followed, sooner or later, by a larger
  one. This is an assumption about the environment, not code.
\<close>

definition clock_advances :: "(nat \<Rightarrow> int) \<Rightarrow> bool" where
  "clock_advances clk \<longleftrightarrow> (\<forall>n. \<exists>m. n < m \<and> clk n < clk m)"

text \<open>
  The generation cursor as one number, and the number that an identifier's text carries
  in the same place: the value of bytes 0 to 5 followed by the low four bits of byte 7.
\<close>

definition cursor_key :: "generator \<Rightarrow> int" where
  "cursor_key g = lastTimestamp g * 16 + sequence g"

definition guid_key :: "string \<Rightarrow> int" where
  "guid_key guid =
     (case bind_err (guidToBuffer guid) (\<lambda>buf.
           bind_err (readUInt32BE buf 0) (\<lambda>hi.
           bind_err (readUInt16BE buf 4) (\<lambda>lo.
           bind_err (readUInt16BE buf 6) (\<lambda>ms.
             Inr ((hi * 65536 + lo) * 16 + ms mod 16))))) of
        Inl e \<Rightarrow> - 1
      | Inr k \<Rightarrow> k)"

text \<open>
  A batch in the specification's words: the identifiers that \<open>n\<close> successive calls of
  \<open>generate\<close> return, in the order of the calls, each call starting from the state the
  call before it left. A call that fails or does not return ends the batch.
\<close>

fun generate_in_order ::
  "nat \<Rightarrow> generator \<times> world \<Rightarrow> ((error + string list) \<times> generator \<times> world) option" where
  "generate_in_order 0 gw = Some (Inr [], gw)"
| "generate_in_order (Suc n) gw =
     (case generate gw of
        None \<Rightarrow> None
      | Some (Inl e, gw') \<Rightarrow> Some (Inl e, gw')
      | Some (Inr guid, gw') \<Rightarrow>
          (case generate_in_order n gw' of
             None \<Rightarrow> None
           | Some (Inl e, gw'') \<Rightarrow> Some (Inl e, gw'')
           | Some (Inr guids, gw'') \<Rightarrow> Some (Inr (guid # guids), gw'')))"

text \<open>
  Bytes 0 to 5 of an identifier hold its tick modulo \<open>2 ^ 32\<close> only, so two ticks a
  multiple of \<open>2 ^ 32\<close> apart look alike. The clock readings numbered \<open>lo\<close> to
  \<open>hi - 1\<close> are free of aliases when no two of them that differ have ticks a multiple of
  \<open>2 ^ 32\<close> apart. This is an assumption about the environment, not code.
\<close>

definition ticks_alias_free :: "(nat \<Rightarrow> int) \<Rightarrow> nat \<Rightarrow> nat \<Rightarrow> bool" where
  "ticks_alias_free clk lo hi \<longleftrightarrow>
     (\<forall>m \<in> {lo ..< hi}. \<forall>n \<in> {lo ..< hi}.
        clk m < clk n \<longrightarrow> ((clk n - clk m) * TICKS_PER_MILLISECOND) mod 2 ^ 32 \<noteq> 0)"

text \<open>
  The order on byte sequences that the sortable-prefix claim speaks of, and the 48-bit
  big-endian integer formed by bytes 0 to 5, both in the specification's words.
\<close>

fun bytes_le :: "buffer \<Rightarrow> buffer \<Rightarrow> bool" where
  "bytes_le [] ys = True"
| "bytes_le (x # xs) [] = False"
| "bytes_le (x # xs) (y # ys) = (x < y \<or> (x = y \<and> bytes_le xs ys))"

definition tick48 :: "buffer \<Rightarrow> int" where
  "tick48 buf = foldl (\<lambda>a b. a * 256 + uint b) 0 (take 6 buf)"

subsection \<open>Example inputs\<close>

text \<open>The bytes of the specification's known-answer identifier.\<close>

definition example_bytes :: buffer where
  "example_bytes =
     [0x55, 0x0E, 0x84, 0x00, 0xE2, 0x9B, 0x41, 0xD4, 0xA7, 0x16, 0x44, 0x66, 0x55, 0x44, 0x00,
         0x00]"

text \<open>A generator as the constructor leaves it, with machine id 12 34 56 78 and epoch 0.\<close>

definition example_generator :: generator where
  "example_generator =
     \<lparr>machineId = [0x12, 0x34, 0x56, 0x78], epoch = 0, lastTimestamp = 0,
         sequence = 0\<rparr>"

text \<open>
  Worlds for the examples: a random source that delivers zero bytes; a clock that reads
  5, 6, 5, 5, ... (it steps back once); a clock that reads 5, 6, 7, ...
\<close>

definition zero_entropy :: "nat \<Rightarrow> byte" where
  "zero_entropy n = 0"

definition world_at :: "(nat \<Rightarrow> int) \<Rightarrow> world" where
  "world_at clk = \<lparr>clock = clk, clock_reads = 0, entropy = zero_entropy, entropy_used = 0\<rparr>"

definition stepping_back_clock :: "nat \<Rightarrow> int" where
  "stepping_back_clock n = (if n = 1 then 6 else 5)"

definition running_clock :: "nat \<Rightarrow> int" where
  "running_clock n = 5 + int n"

text \<open>The example generator with its cursor set to a last tick and a sequence number.\<close>

definition cursor_at :: "int \<Rightarrow> int \<Rightarrow> generator" where
  "cursor_at t s = example_generator\<lparr>lastTimestamp := t, sequence := s\<rparr>"

text \<open>The stepping-back clock after two readings: the next reading is 5, the last was 6.\<close>

definition stepped_back_world :: world where
  "stepped_back_world = (world_at stepping_back_clock)\<lparr>clock_reads := 2\<rparr>"

text \<open>
  A generator whose epoch is 2023-11-14T22:13:20Z, and two clocks relative to it: one
  whose first two readings lie 429496 ms and 429497 ms after the epoch (on either side of
  \<open>2 ^ 32\<close> ticks), one whose first reading lies 214749 ms after it (just past \<open>2 ^ 31\<close>
  ticks).
\<close>

definition recent_generator :: generator where
  "recent_generator =
     \<lparr>machineId = [0x12, 0x34, 0x56, 0x78], epoch = 1700000000000, lastTimestamp = 0,
         sequence = 0\<rparr>"

definition ticking_clock :: "nat \<Rightarrow> int" where
  "ticking_clock n = 1700000429496 + int n"

definition half_window_clock :: "nat \<Rightarrow> int" where
  "half_window_clock n = 1700000214749 + int n"

text \<open>
  A clock for the same generator that reads 429498 ms after the epoch and then steps back
  to 429497 ms.
\<close>

definition late_step_back_clock :: "nat \<Rightarrow> int" where
  "late_step_back_clock n = (if n = 0 then 1700000429498 else 1700000429497)"

text \<open>
  A generator as the constructor leaves it when no epoch is given (machine id 12 34 56 78),
  and a clock that starts at 2025-11-03T00:00:00Z and advances by one millisecond every
  twenty readings.
\<close>

definition default_generator :: generator where
  "default_generator =
     \<lparr>machineId = [0x12, 0x34, 0x56, 0x78], epoch = EPOCH, lastTimestamp = 0,
         sequence = 0\<rparr>"

definition wall_clock :: "nat \<Rightarrow> int" where
  "wall_clock n = 1762128000000 + int (n div 20)"

section \<open>Properties of the codec\<close>

subsection \<open>The validator\<close>



lemma class_chars_hex: "class_chars hex_class = ''0123456789abcdef''"
  by code_simp

lemma hex_class_matches:
  "class_matches_i hex_class c \<longleftrightarrow> is_hex_digit c"
  unfolding class_matches_i_def class_chars_hex is_hex_digit_def
  by (simp add: toUpperCase_char_def) (auto split: if_splits)

lemma toUpperCase_char_hyphen:
  "toUpperCase_char c = toUpperCase_char CHR ''-'' \<longleftrightarrow> c = CHR ''-''"
  by (simp add: toUpperCase_char_def) 

lemma regex_test_length: "regex_test ps s \<Longrightarrow> length s = sum_list (map piece_len ps)"
  by (induction ps s rule: regex_test.induct) auto

lemma isValidGuid_length: "isValidGuid s \<Longrightarrow> length s = 36"
  by (drule regex_test_length [of guidRegex s, unfolded isValidGuid_def [symmetric]])
     (simp add: guidRegex_def)

lemma spec_isValid_length: "spec_isValid s \<Longrightarrow> length s = 36"
  by (auto simp: spec_isValid_def Let_def)

lemma list36: "length s = 36 \<Longrightarrow> s = [s ! 0, s ! 1, s ! 2, s ! 3, s ! 4, s ! 5,
    s ! 6, s ! 7, s ! 8, s ! 9, s ! 10, s ! 11, s ! 12, s ! 13, s ! 14, s ! 15, s ! 16, s ! 17,
    s ! 18, s ! 19, s ! 20, s ! 21, s ! 22, s ! 23, s ! 24, s ! 25, s ! 26, s ! 27, s ! 28,
    s ! 29, s ! 30, s ! 31, s ! 32, s ! 33, s ! 34, s ! 35]"
proof -
  assume "length s = 36"
  then have "s = map ((!) s) [0..<36]" by (metis map_nth)
  also have "map ((!) s) [0..<36] = [s ! 0, s ! 1, s ! 2, s ! 3, s ! 4, s ! 5, s ! 6, s ! 7,
      s ! 8, s ! 9, s ! 10, s ! 11, s ! 12, s ! 13, s ! 14, s ! 15, s ! 16, s ! 17, s ! 18,
      s ! 19, s ! 20, s ! 21, s ! 22, s ! 23, s ! 24, s ! 25, s ! 26, s ! 27, s ! 28, s ! 29,
      s ! 30, s ! 31, s ! 32, s ! 33, s ! 34, s ! 35]" by (simp add: upt_rec eval_nat_numeral)
  finally show ?thesis .
qed

lemma isValidGuid_explicit:
  "isValidGuid [x0, x1, x2, x3, x4, x5, x6, x7, x8, x9, x10, x11, x12, x13, x14, x15, x16, x17,
      x18, x19, x20, x21, x22, x23, x24, x25, x26, x27, x28, x29, x30, x31, x32, x33, x34,
      x35] \<longleftrightarrow> spec_isValid [x0, x1, x2, x3, x4, x5, x6, x7, x8, x9, x10, x11,
      x12, x13, x14, x15, x16, x17, x18, x19, x20, x21, x22, x23, x24, x25, x26, x27, x28, x29,
      x30, x31, x32, x33, x34, x35]"
  by (simp add: isValidGuid_def guidRegex_def spec_isValid_def eval_nat_numeral
      hex_class_matches toUpperCase_char_hyphen) blast

lemma isValidGuid_spec: "isValidGuid s \<longleftrightarrow> spec_isValid s"
proof (cases "length s = 36")
  case True
  show ?thesis by (subst (1 2) list36 [OF True]) (rule isValidGuid_explicit)
next
  case False
  then show ?thesis using isValidGuid_length spec_isValid_length by blast
qed



lemma nibble_hi: "unat (drop_bit 4 (b :: byte)) < 16"
proof -
  have "unat b < 2 ^ 8" using unsigned_less [of b] by simp
  moreover have "unat (drop_bit 4 b) = unat b div 2 ^ 4"
    by (simp add: drop_bit_eq_div unat_div)
  ultimately show ?thesis by simp
qed

lemma nibble_lo: "unat ((b :: byte) AND 15) < 16"
proof -
  have "unat (b AND 15) \<le> unat (15 :: byte)"
    by (rule word_and_le1 [THEN word_le_nat_alt [THEN iffD1]])
  then show ?thesis by simp
qed

lemma mask4: "(15 :: byte) = mask 4"
  by (simp add: mask_eq_exp_minus_1)

lemma nibble_join: "16 * drop_bit 4 b + (b AND 15) = (b :: byte)"
proof -
  have "16 * drop_bit 4 b + (b AND 15) = push_bit 4 (drop_bit 4 b) + take_bit 4 b"
    by (simp add: push_bit_eq_mult take_bit_eq_mask mask4)
  then show ?thesis by (simp only: bits_ident)
qed

lemma hex_digit_upper_all:
  "list_all (\<lambda>n. hex_value (toUpperCase_char (hex_digit n)) = Some n \<and>
                 toUpperCase_char (hex_digit n) \<noteq> CHR ''-'' \<and>
                 toUpperCase_char (hex_digit n) \<in> set ''0123456789abcdefABCDEF'')
     [0 ..< 16]"
  by code_simp

lemma hex_digit_upper:
  assumes "n < 16"
  shows "hex_value (toUpperCase_char (hex_digit n)) = Some n"
    and "toUpperCase_char (hex_digit n) \<noteq> CHR ''-''"
    and "toUpperCase_char (hex_digit n) \<in> set ''0123456789abcdefABCDEF''"
proof -
  from assms have "n \<in> set [0 ..< 16]" by simp
  with hex_digit_upper_all
  have "hex_value (toUpperCase_char (hex_digit n)) = Some n \<and>
        toUpperCase_char (hex_digit n) \<noteq> CHR ''-'' \<and>
        toUpperCase_char (hex_digit n) \<in> set ''0123456789abcdefABCDEF''"
    unfolding list_all_iff by blast
  then show "hex_value (toUpperCase_char (hex_digit n)) = Some n"
    and "toUpperCase_char (hex_digit n) \<noteq> CHR ''-''"
    and "toUpperCase_char (hex_digit n) \<in> set ''0123456789abcdefABCDEF''"
    by blast+
qed

lemma up_byte_hex: "toUpperCase (byte_hex b) = [up_hi b, up_lo b]"
  by (simp add: toUpperCase_def byte_hex_def up_hi_def up_lo_def)

lemma toUpperCase_append: "toUpperCase (s @ t) = toUpperCase s @ toUpperCase t"
  by (simp add: toUpperCase_def)

lemma up_digit_facts:
  "hex_value (up_hi b) = Some (unat (drop_bit 4 b))"
  "hex_value (up_lo b) = Some (unat (b AND 15))"
  "up_hi b \<noteq> CHR ''-''" "up_lo b \<noteq> CHR ''-''"
  "is_hex_digit (up_hi b)" "is_hex_digit (up_lo b)"
  unfolding up_hi_def up_lo_def is_hex_digit_def
  using hex_digit_upper [OF nibble_hi [of b]] hex_digit_upper [OF nibble_lo [of b]]
  by blast+

lemma list16: "length s = 16 \<Longrightarrow> s = [s ! 0, s ! 1, s ! 2, s ! 3, s ! 4, s ! 5,
    s ! 6, s ! 7, s ! 8, s ! 9, s ! 10, s ! 11, s ! 12, s ! 13, s ! 14, s ! 15]"
proof -
  assume "length s = 16"
  then have "s = map ((!) s) [0..<16]" by (metis map_nth)
  also have "map ((!) s) [0..<16] = [s ! 0, s ! 1, s ! 2, s ! 3, s ! 4, s ! 5, s ! 6, s ! 7,
      s ! 8, s ! 9, s ! 10, s ! 11, s ! 12, s ! 13, s ! 14,
      s ! 15]" by (simp add: upt_rec eval_nat_numeral)
  finally show ?thesis .
qed

lemma formatGuid_explicit:
  "formatGuid [b0, b1, b2, b3, b4, b5, b6, b7, b8, b9, b10, b11, b12, b13, b14, b15] =
     [up_hi b0, up_lo b0, up_hi b1, up_lo b1, up_hi b2, up_lo b2, up_hi b3, up_lo b3, CHR ''-'',
      up_hi b4, up_lo b4, up_hi b5, up_lo b5, CHR ''-'',
      up_hi b6, up_lo b6, up_hi b7, up_lo b7, CHR ''-'',
      up_hi b8, up_lo b8, up_hi b9, up_lo b9, CHR ''-'',
      up_hi b10, up_lo b10, up_hi b11, up_lo b11, up_hi b12, up_lo b12,
      up_hi b13, up_lo b13, up_hi b14, up_lo b14, up_hi b15, up_lo b15]"
  by (simp add: formatGuid_def toString_hex_def up_byte_hex toUpperCase_append)

lemma isValidGuid_formatGuid_explicit: "isValidGuid (formatGuid [b0, b1, b2, b3, b4, b5, b6, b7,
    b8, b9, b10, b11, b12, b13, b14, b15])"
  unfolding formatGuid_explicit isValidGuid_explicit
  by (simp add: spec_isValid_def up_digit_facts)

lemma guidToBuffer_formatGuid_explicit: "guidToBuffer (formatGuid [b0, b1, b2, b3, b4, b5, b6,
    b7, b8, b9, b10, b11, b12, b13, b14, b15]) = Inr [b0, b1, b2, b3, b4, b5, b6, b7, b8, b9,
    b10, b11, b12, b13, b14, b15]"
  unfolding guidToBuffer_def
  by (simp add: isValidGuid_formatGuid_explicit)
     (simp add: formatGuid_explicit up_digit_facts nibble_join)

lemma guidToBuffer_formatGuid:
  "length buf = 16 \<Longrightarrow> guidToBuffer (formatGuid buf) = Inr buf"
  by (subst (1 2) list16, assumption) (rule guidToBuffer_formatGuid_explicit)

subsection \<open>Decoding a valid identifier\<close>

lemma is_hex_digit_facts:
  assumes "is_hex_digit c"
  shows "c \<noteq> CHR ''-''" and "\<exists>v. hex_value c = Some v"
  using assms unfolding is_hex_digit_def hex_value_def by auto

lemma Buffer_from_hex_length:
  "list_all is_hex_digit xs \<Longrightarrow> length (Buffer_from_hex xs) = length xs div 2"
proof (induction xs rule: Buffer_from_hex.induct)
  case (1 a b rest)
  then obtain h l where "hex_value a = Some h" "hex_value b = Some l"
    using is_hex_digit_facts(2) by fastforce
  with 1 show ?case by simp
qed simp_all

lemma filter_hex_group: "list_all is_hex_digit xs \<Longrightarrow> filter (\<lambda>c. c \<noteq> CHR ''-'') xs = xs"
  by (induction xs) (auto dest: is_hex_digit_facts(1))

lemma strip_hyphens_valid:
  assumes "isValidGuid s"
  shows "list_all is_hex_digit (filter (\<lambda>c. c \<noteq> CHR ''-'') s)"
    and "length (filter (\<lambda>c. c \<noteq> CHR ''-'') s) = 32"
proof -
  let ?gs = "[take 8 s, take 4 (drop 9 s), take 4 (drop 14 s), take 4 (drop 19 s), drop 24 s]"
  from assms have sp: "spec_isValid s" by (simp add: isValidGuid_spec)
  then have hex: "list_all (list_all is_hex_digit) ?gs"
    and len: "map length ?gs = [8, 4, 4, 4, 12]"
    and s: "s = join ''-'' ?gs"
    unfolding spec_isValid_def Let_def by blast+
  have "filter (\<lambda>c. c \<noteq> CHR ''-'') s = filter (\<lambda>c. c \<noteq> CHR ''-'') (join ''-'' ?gs)"
    using s by simp
  also have "\<dots> = concat ?gs"
    using hex by (simp add: filter_hex_group)
  finally have eq: "filter (\<lambda>c. c \<noteq> CHR ''-'') s = concat ?gs" .
  show "list_all is_hex_digit (filter (\<lambda>c. c \<noteq> CHR ''-'') s)"
    unfolding eq using hex by simp
  show "length (filter (\<lambda>c. c \<noteq> CHR ''-'') s) = 32"
    unfolding eq using len by simp
qed

lemma guidToBuffer_valid_length:
  "isValidGuid s \<Longrightarrow> length (Buffer_from_hex (filter (\<lambda>c. c \<noteq> CHR ''-'') s)) = 16"
  by (simp add: Buffer_from_hex_length strip_hyphens_valid)

lemma guidToBuffer_cases:
  "guidToBuffer s =
     (if isValidGuid s then Inr (Buffer_from_hex (filter (\<lambda>c. c \<noteq> CHR ''-'') s))
      else Inl InvalidFormat)"
  by (simp add: guidToBuffer_def)

lemma extractTimestamp_valid:
  assumes "isValidGuid s"
  shows "\<exists>t. extractTimestamp g s = Inr t"
proof -
  have "length (Buffer_from_hex (filter (\<lambda>c. c \<noteq> CHR ''-'') s)) = 16"
    using assms by (rule guidToBuffer_valid_length)
  then show ?thesis
    by (simp add: extractTimestamp_def guidToBuffer_cases assms bind_err_def
        readUInt32BE_def readUInt16BE_def Let_def)
qed

lemma extractTimestamp_invalid:
  "\<not> isValidGuid s \<Longrightarrow> extractTimestamp g s = Inl InvalidFormat"
  by (simp add: extractTimestamp_def guidToBuffer_cases bind_err_def)

subsection \<open>The decoder against the specification's decoding\<close>

lemma hex_value_spec_all:
  "list_all (\<lambda>c. hex_value c = Some (spec_hex_digit_value c)) ''0123456789abcdefABCDEF''"
  by code_simp

lemma hex_value_spec: "is_hex_digit c \<Longrightarrow> hex_value c = Some (spec_hex_digit_value c)"
  using hex_value_spec_all unfolding is_hex_digit_def list_all_iff by blast

lemma Buffer_from_hex_spec:
  "list_all is_hex_digit xs \<Longrightarrow> even (length xs) \<Longrightarrow>
   Buffer_from_hex xs =
     map (\<lambda>i. word_of_nat (16 * spec_hex_digit_value (xs ! (2 * i)) +
                            spec_hex_digit_value (xs ! (2 * i + 1))))
         [0..<length xs div 2]"
proof (induction xs rule: Buffer_from_hex.induct)
  case (1 a b rest)
  have a: "hex_value a = Some (spec_hex_digit_value a)"
    and b: "hex_value b = Some (spec_hex_digit_value b)"
    using 1(2) by (simp_all add: hex_value_spec)
  have rest: "Buffer_from_hex rest =
     map (\<lambda>i. word_of_nat (16 * spec_hex_digit_value (rest ! (2 * i)) +
                            spec_hex_digit_value (rest ! (2 * i + 1))))
         [0..<length rest div 2]"
    using 1 a b by simp
  show ?case
    by (simp add: a b rest map_upt_Suc del: upt_Suc)
qed simp_all

lemma guidToBuffer_spec_decode:
  assumes "isValidGuid s"
  shows "guidToBuffer s = Inr (spec_hex_decode s)"
  using assms strip_hyphens_valid [OF assms]
  by (simp add: guidToBuffer_cases spec_hex_decode_def Buffer_from_hex_spec Let_def)

subsection \<open>Claims about the codec\<close>

text \<open>
  C6: \<open>isValidGuid\<close> is a total function to \<open>bool\<close> (it has no error or divergence
  outcome), and it is true exactly of the texts made of 8, 4, 4, 4 and 12 hexadecimal
  digits of either case joined by hyphens, with nothing before, between or after.
\<close>

theorem isValidGuid_exactly_canonical: "isValidGuid guid = spec_isValid guid"
  by (rule isValidGuid_spec)

theorem isValidGuid_exactly_canonical_witness:
  "isValidGuid ''550e8400-E29B-41D4-A716-446655440000'' \<and>
   spec_isValid ''550e8400-E29B-41D4-A716-446655440000'' \<and>
   \<not> isValidGuid '''' \<and> \<not> isValidGuid ''not-a-guid'' \<and>
   \<not> isValidGuid ''550E8400E29B41D4A716446655440000'' \<and>
   \<not> isValidGuid ''550E8400-E29B-41D4-A716-44665544'' \<and>
   \<not> isValidGuid ''550E8400-E29B-41D4-A716-44665544000000'' \<and>
   \<not> isValidGuid ''550E8400-E29B-41D4-A716-44665544000Z''"
  unfolding isValidGuid_exactly_canonical
  by (simp add: spec_isValid_def is_hex_digit_def)

text \<open>
  C2: for every 16-byte buffer, decoding its formatted text gives the buffer back, and
  formatting the decoded bytes again gives the same text.
\<close>

theorem formatGuid_round_trip:
  "length buf = 16 \<Longrightarrow>
     guidToBuffer (formatGuid buf) = Inr buf \<and>
     bind_err (guidToBuffer (formatGuid buf)) (\<lambda>b. Inr (formatGuid b)) = Inr (formatGuid buf)"
  by (simp add: guidToBuffer_formatGuid bind_err_def)

theorem formatGuid_round_trip_witness:
  "length example_bytes = 16 \<and>
   formatGuid example_bytes = ''550E8400-E29B-41D4-A716-446655440000'' \<and>
   guidToBuffer ''550E8400-E29B-41D4-A716-446655440000'' = Inr example_bytes"
proof -
  have len: "length example_bytes = 16" by (simp add: example_bytes_def)
  have fmt: "formatGuid example_bytes = ''550E8400-E29B-41D4-A716-446655440000''"
    by code_simp
  from formatGuid_round_trip [OF len] len fmt show ?thesis by simp
qed

text \<open>
  C7: \<open>guidToBuffer\<close> and \<open>extractTimestamp\<close> fail with \<open>InvalidFormat\<close> exactly on the
  texts that \<open>isValidGuid\<close> rejects. On a valid text neither fails, and \<open>guidToBuffer\<close>
  returns the 16 bytes of the specification's decoding: byte \<open>i\<close> is sixteen times the
  value of the hexadecimal digit \<open>2 i\<close> of the text without its hyphens plus the value of
  digit \<open>2 i + 1\<close>, for digits of either case.
\<close>

theorem invalid_text_is_the_only_failure:
  "(guidToBuffer guid = Inl InvalidFormat \<longleftrightarrow> \<not> isValidGuid guid) \<and>
   (extractTimestamp g guid = Inl InvalidFormat \<longleftrightarrow> \<not> isValidGuid guid) \<and>
   (isValidGuid guid \<longrightarrow>
      guidToBuffer guid = Inr (spec_hex_decode guid) \<and>
      length (spec_hex_decode guid) = 16 \<and>
      (\<exists>t. extractTimestamp g guid = Inr t))"
proof -
  have len: "length (spec_hex_decode guid) = 16"
    by (simp add: spec_hex_decode_def Let_def)
  show ?thesis
    using extractTimestamp_valid [of guid g] extractTimestamp_invalid [of guid g]
      guidToBuffer_spec_decode [of guid] len
    by (auto simp: guidToBuffer_cases)
qed

theorem invalid_text_is_the_only_failure_witness:
  "isValidGuid ''550e8400-e29b-41d4-a716-446655440000'' \<and>
   guidToBuffer ''550e8400-e29b-41d4-a716-446655440000'' = Inr example_bytes \<and>
   spec_hex_decode ''550e8400-e29b-41d4-a716-446655440000'' = example_bytes \<and>
   spec_hex_decode ''550E8400-E29B-41D4-A716-446655440000'' = example_bytes \<and>
   extractTimestamp example_generator ''550e8400-e29b-41d4-a716-446655440000''
     \<noteq> Inl InvalidFormat \<and>
   \<not> isValidGuid ''not-a-guid'' \<and>
   guidToBuffer ''not-a-guid'' = Inl InvalidFormat \<and>
   extractTimestamp example_generator ''not-a-guid'' = Inl InvalidFormat"
proof -
  have v: "isValidGuid ''550e8400-e29b-41d4-a716-446655440000''"
    by (simp add: isValidGuid_spec spec_isValid_def is_hex_digit_def)
  have V: "isValidGuid ''550E8400-E29B-41D4-A716-446655440000''"
    by (simp add: isValidGuid_spec spec_isValid_def is_hex_digit_def)
  have n: "\<not> isValidGuid ''not-a-guid''"
    by (simp add: isValidGuid_spec spec_isValid_def is_hex_digit_def)
  have b: "guidToBuffer ''550e8400-e29b-41d4-a716-446655440000'' = Inr example_bytes"
    by (simp add: guidToBuffer_cases v hex_value_def example_bytes_def)
  have B: "guidToBuffer ''550E8400-E29B-41D4-A716-446655440000'' = Inr example_bytes"
    by (simp add: guidToBuffer_cases V hex_value_def example_bytes_def)
  from invalid_text_is_the_only_failure
         [of "''550e8400-e29b-41d4-a716-446655440000''" example_generator]
       invalid_text_is_the_only_failure
         [of "''550E8400-E29B-41D4-A716-446655440000''" example_generator]
       invalid_text_is_the_only_failure [of "''not-a-guid''" example_generator] v V n b B
  show ?thesis by simp
qed

subsection \<open>Construction\<close>

text \<open>
  C9: a supplied machine id whose length is not 4 makes the constructor fail with
  \<open>InvalidMachineId\<close>; the machine id 12 34 56 78 is accepted and \<open>getMachineId\<close> then
  returns \<open>12345678\<close>.
\<close>

theorem constructor_checks_machine_id:
  "(length m \<noteq> 4 \<longrightarrow> fst (new_generator (Some m) opt_epoch w) = Inl InvalidMachineId) \<and>
   (\<exists>g. fst (new_generator (Some [0x12, 0x34, 0x56, 0x78]) opt_epoch w) = Inr g \<and>
        getMachineId g = ''12345678'')"
  by (simp add: new_generator_def getMachineId_def Let_def toString_hex_def toUpperCase_def
      byte_hex_def hex_digit_def toUpperCase_char_def)

theorem constructor_checks_machine_id_witness:
  "length [0x12, 0x34 :: byte] \<noteq> 4 \<and>
   fst (new_generator (Some [0x12, 0x34]) None
          \<lparr>clock = int, clock_reads = 0, entropy = of_nat, entropy_used = 0\<rparr>)
     = Inl InvalidMachineId"
  using constructor_checks_machine_id
          [of "[0x12, 0x34]" None
              "\<lparr>clock = int, clock_reads = 0, entropy = of_nat, entropy_used = 0\<rparr>"]
  by simp

section \<open>Properties of the generator\<close>

subsection \<open>The bitwise operators on the values that occur\<close>

lemma js_and_int: "js_and x y = signed_take_bit 31 (x AND y)"
  unfolding js_and_def by (simp add: sint_sbintrunc' flip: of_int_and_eq)

lemma js_or_int: "js_or x y = signed_take_bit 31 (x OR y)"
  unfolding js_or_def by (simp add: sint_sbintrunc' flip: of_int_or_eq)

lemma stb_id: "0 \<le> v \<Longrightarrow> v < 2 ^ 31 \<Longrightarrow> signed_take_bit 31 v = (v :: int)"
  by (simp add: signed_take_bit_int_eq_self_iff)

lemma js_and_nonneg_mask:
  assumes "0 \<le> y" "y < 2 ^ 31"
  shows "js_and x y = x AND y" and "0 \<le> js_and x y" and "js_and x y \<le> y"
proof -
  have a: "0 \<le> x AND y" using assms by simp
  have b: "x AND y \<le> y" using assms by (simp add: AND_upper2)
  show "js_and x y = x AND y" using a b assms by (simp add: js_and_int stb_id)
  then show "0 \<le> js_and x y" and "js_and x y \<le> y" using a b by simp_all
qed

lemma js_or_small:
  assumes "0 \<le> a" "a < 2 ^ 16" "0 \<le> b" "b < 2 ^ 16"
  shows "js_or a b = a OR b" and "0 \<le> js_or a b" and "js_or a b < 2 ^ 16"
proof -
  have a: "0 \<le> a OR b" using assms by simp
  have b: "a OR b < 2 ^ 16" using OR_upper [of a 16 b] assms by simp
  show "js_or a b = a OR b" using a b by (simp add: js_or_int stb_id)
  then show "0 \<le> js_or a b" and "js_or a b < 2 ^ 16" using a b by simp_all
qed

lemma js_ushr_16: "js_ushr x 16 = (x mod 2 ^ 32) div 2 ^ 16"
  unfolding js_ushr_def
  by (simp add: drop_bit_eq_div uint_div uint_word_of_int)

lemma mask4_int: "(15 :: int) = mask 4" and mask16_int: "(65535 :: int) = mask 16"
  by (simp_all add: mask_eq_exp_minus_1)

lemma js_and_15: "js_and x 15 = x mod 16"
  by (simp add: js_and_nonneg_mask(1)) (simp add: mask4_int take_bit_eq_mod flip: take_bit_eq_mask)

lemma js_and_FFFF: "js_and x 65535 = x mod 65536"
  by (simp add: js_and_nonneg_mask(1)) (simp add: mask16_int take_bit_eq_mod flip: take_bit_eq_mask)

subsection \<open>The cases of \<open>getTimestamp\<close> and the busy wait\<close>

declare getTimestamp.simps [simp del]

lemma getTimestamp_new_tick:
  "tick_of g now \<noteq> lastTimestamp g \<Longrightarrow>
     getTimestamp now (g, w)
       = Some (tick_of g now, g\<lparr>sequence := 0, lastTimestamp := tick_of g now\<rparr>, w)"
  by (simp add: getTimestamp.simps tick_of_def Let_def)

lemma getTimestamp_same_tick:
  "tick_of g now = lastTimestamp g \<Longrightarrow> (sequence g + 1) mod 16 \<noteq> 0 \<Longrightarrow>
     getTimestamp now (g, w)
       = Some (tick_of g now,
               g\<lparr>sequence := (sequence g + 1) mod 16, lastTimestamp := tick_of g now\<rparr>, w)"
  by (simp add: getTimestamp.simps tick_of_def Let_def js_and_15)

lemma getTimestamp_wrap:
  "tick_of g now = lastTimestamp g \<Longrightarrow> (sequence g + 1) mod 16 = 0 \<Longrightarrow>
     getTimestamp now (g, w)
       = (case busy_wait now w of
            None \<Rightarrow> None
          | Some w1 \<Rightarrow>
              getTimestamp (fst (Date_now w1))
                (g\<lparr>sequence := (sequence g + 1) mod 16\<rparr>, snd (Date_now w1)))"
  by (subst getTimestamp.simps)
     (simp add: tick_of_def Let_def js_and_15 split: option.splits prod.splits)

lemma getTimestamp_after_wrap:
  "sequence g = 0 \<Longrightarrow>
     getTimestamp now (g, w)
       = Some (tick_of g now,
               g\<lparr>sequence := (if tick_of g now = lastTimestamp g then 1 else 0),
                 lastTimestamp := tick_of g now\<rparr>, w)"
  by (simp add: getTimestamp.simps tick_of_def Let_def js_and_15)

lemma busy_wait_Some:
  assumes "busy_wait now w = Some w1"
  shows "w1 = w\<lparr>clock_reads := clock_reads w1\<rparr> \<and> clock_reads w < clock_reads w1 \<and>
         now < clock w (clock_reads w1 - 1)"
proof (rule busy_wait.raw_induct
    [where P = "\<lambda>now w w1. w1 = w\<lparr>clock_reads := clock_reads w1\<rparr> \<and>
                   clock_reads w < clock_reads w1 \<and> now < clock w (clock_reads w1 - 1)",
     OF _ assms])
  fix bw :: "int \<Rightarrow> world \<Rightarrow> world option" and now w w1
  assume IH: "\<And>n v y. bw n v = Some y \<Longrightarrow>
           y = v\<lparr>clock_reads := clock_reads y\<rparr> \<and> clock_reads v < clock_reads y \<and>
           n < clock v (clock_reads y - 1)"
    and step: "(case Date_now w of (t, w') \<Rightarrow> if t \<le> now then bw now w' else Some w') = Some w1"
  show "w1 = w\<lparr>clock_reads := clock_reads w1\<rparr> \<and> clock_reads w < clock_reads w1 \<and>
        now < clock w (clock_reads w1 - 1)"
  proof (cases "clock w (clock_reads w) \<le> now")
    case True
    with step have "bw now (w\<lparr>clock_reads := Suc (clock_reads w)\<rparr>) = Some w1"
      by (simp add: Date_now_def)
    from IH [OF this] show ?thesis by auto
  next
    case False
    with step have "w1 = w\<lparr>clock_reads := Suc (clock_reads w)\<rparr>"
      by (simp add: Date_now_def)
    with False show ?thesis by simp
  qed
qed

lemma busy_wait_terminates:
  "clock_reads w \<le> k \<Longrightarrow> now < clock w k \<Longrightarrow> \<exists>w1. busy_wait now w = Some w1"
proof (induction "k - clock_reads w" arbitrary: w)
  case 0
  then have "now < clock w (clock_reads w)" by simp
  then show ?case by (subst busy_wait.simps) (simp add: Date_now_def)
next
  case (Suc n)
  show ?case
  proof (cases "clock w (clock_reads w) \<le> now")
    case True
    let ?w = "w\<lparr>clock_reads := Suc (clock_reads w)\<rparr>"
    have "n = k - clock_reads ?w" "clock_reads ?w \<le> k" "now < clock ?w k"
      using Suc.hyps(2) Suc.prems by simp_all
    from Suc.hyps(1) [OF this] obtain w1 where "busy_wait now ?w = Some w1" by blast
    with True show ?thesis by (subst busy_wait.simps) (simp add: Date_now_def)
  next
    case False
    then show ?thesis by (subst busy_wait.simps) (simp add: Date_now_def)
  qed
qed

lemma tick_of_update [simp]:
  "tick_of (g\<lparr>sequence := s\<rparr>) now = tick_of g now"
  "tick_of (g\<lparr>lastTimestamp := l\<rparr>) now = tick_of g now"
  by (simp_all add: tick_of_def)

lemma mod16_range: "0 \<le> (x :: int) mod 16" "(x :: int) mod 16 \<le> 15"
  by simp_all

text \<open>What every returning call of \<open>getTimestamp\<close> leaves behind.\<close>

lemma getTimestamp_result:
  assumes "getTimestamp now (g, w) = Some (t, g', w')"
  shows "g' = g\<lparr>sequence := sequence g', lastTimestamp := t\<rparr>"
    and "0 \<le> sequence g'" and "sequence g' \<le> 15"
    and "w' = w\<lparr>clock_reads := clock_reads w'\<rparr>"
    and "clock_reads w \<le> clock_reads w'"
proof -
  have "g' = g\<lparr>sequence := sequence g', lastTimestamp := t\<rparr> \<and>
        0 \<le> sequence g' \<and> sequence g' \<le> 15 \<and>
        w' = w\<lparr>clock_reads := clock_reads w'\<rparr> \<and> clock_reads w \<le> clock_reads w'"
  proof (cases "tick_of g now = lastTimestamp g")
    case new: False
    from assms show ?thesis unfolding getTimestamp_new_tick [OF new] by auto
  next
    case eq: True
    show ?thesis
    proof (cases "(sequence g + 1) mod 16 = 0")
      case same: False
      from assms show ?thesis unfolding getTimestamp_same_tick [OF eq same]
        using mod16_range [of "sequence g + 1"] by auto
    next
      case wrap: True
      from assms obtain w1 where w1: "busy_wait now w = Some w1"
        and r: "getTimestamp (fst (Date_now w1))
                  (g\<lparr>sequence := (sequence g + 1) mod 16\<rparr>, snd (Date_now w1))
                = Some (t, g', w')"
        unfolding getTimestamp_wrap [OF eq wrap] by (auto split: option.splits)
      from busy_wait_Some [OF w1]
      have bw: "w1 = w\<lparr>clock_reads := clock_reads w1\<rparr>" "clock_reads w < clock_reads w1"
        by simp_all
      have "sequence (g\<lparr>sequence := (sequence g + 1) mod 16\<rparr>) = 0" using wrap by simp
      from r [unfolded getTimestamp_after_wrap [OF this]] bw
      show ?thesis
        by (auto simp: Date_now_def) (metis world.surjective world.update_convs(2))+
    qed
  qed
  then show "g' = g\<lparr>sequence := sequence g', lastTimestamp := t\<rparr>"
    and "0 \<le> sequence g'" and "sequence g' \<le> 15"
    and "w' = w\<lparr>clock_reads := clock_reads w'\<rparr>"
    and "clock_reads w \<le> clock_reads w'"
    by blast+
qed

subsection \<open>The bytes written by \<open>generate\<close>\<close>

lemma uint16_range:
  "0 \<le> uint (a :: byte) * 2 ^ 8 + uint (b :: byte)"
  "uint (a :: byte) * 2 ^ 8 + uint (b :: byte) < 2 ^ 16"
proof -
  have "uint a < 2 ^ 8" "uint b < 2 ^ 8" "0 \<le> uint a" "0 \<le> uint b"
    using uint_lt2p [of a] uint_lt2p [of b] by simp_all
  then show "0 \<le> uint a * 2 ^ 8 + uint b" "uint a * 2 ^ 8 + uint b < 2 ^ 16"
    by simp_all
qed

lemma js_ushr_16_range: "0 \<le> js_ushr t 16" "js_ushr t 16 < 2 ^ 16"
  by (simp_all add: js_ushr_16 pos_imp_zdiv_nonneg_iff div_less_iff_less_mult)

lemma machine_word_range:
  "0 \<le> js_or (js_and (machine_high g) 0xFFF0) (js_and (sequence g) 0x000F)"
  "js_or (js_and (machine_high g) 0xFFF0) (js_and (sequence g) 0x000F) < 2 ^ 16"
proof -
  have a: "0 \<le> js_and (machine_high g) 0xFFF0" "js_and (machine_high g) 0xFFF0 < 2 ^ 16"
    using js_and_nonneg_mask(2,3) [of "0xFFF0" "machine_high g"] by simp_all
  have b: "0 \<le> js_and (sequence g) 0x000F" "js_and (sequence g) 0x000F < 2 ^ 16"
    using js_and_nonneg_mask(2,3) [of "0x000F" "sequence g"] by simp_all
  show "0 \<le> js_or (js_and (machine_high g) 0xFFF0) (js_and (sequence g) 0x000F)"
    "js_or (js_and (machine_high g) 0xFFF0) (js_and (sequence g) 0x000F) < 2 ^ 16"
    using js_or_small(2,3) [OF a b] by simp_all
qed

lemma pack_explicit:
  assumes "0 \<le> hi" "hi < 4294967296" "0 \<le> lo" "lo < 65536" "0 \<le> ms" "ms < 65536"
    "0 \<le> ml" "ml < 65536"
  shows "bind_err (writeUInt32BE hi 0 (Buffer_alloc 16)) (\<lambda>guid1.
         bind_err (writeUInt16BE lo 4 guid1) (\<lambda>guid2.
         bind_err (writeUInt16BE ms 6 guid2) (\<lambda>guid3.
         writeUInt16BE ml 8 guid3)))
       = Inr ([word_of_int (hi div 16777216), word_of_int (hi div 65536),
               word_of_int (hi div 256), word_of_int hi,
               word_of_int (lo div 256), word_of_int lo,
               word_of_int (ms div 256), word_of_int ms,
               word_of_int (ml div 256), word_of_int ml] @ replicate 6 0)"
  using assms
  by (simp add: bind_err_def writeUInt32BE_def writeUInt16BE_def Buffer_alloc_def
      eval_nat_numeral)

lemma write_prefix_explicit:
  assumes "length (machineId g) = 4"
  shows "write_prefix t g = Inr (prefix_bytes t g @ replicate 6 0)"
proof -
  have m: "readUInt16BE (machineId g) 0 = Inr (machine_high g)"
    "readUInt16BE (machineId g) 2 = Inr (machine_low g)"
    using assms by (simp_all add: readUInt16BE_def machine_high_def machine_low_def)
  have hi: "0 \<le> js_ushr t 16" "js_ushr t 16 < 4294967296"
    using js_ushr_16_range [of t] by simp_all
  have lo: "0 \<le> js_and t 0xFFFF" "js_and t 0xFFFF < 65536"
    using js_and_nonneg_mask(2,3) [of "0xFFFF" t] by simp_all
  have ml: "0 \<le> machine_low g" "machine_low g < 65536"
    unfolding machine_low_def using uint16_range by simp_all
  have ms: "0 \<le> js_or (js_and (machine_high g) 0xFFF0) (js_and (sequence g) 0x000F)"
    "js_or (js_and (machine_high g) 0xFFF0) (js_and (sequence g) 0x000F) < 65536"
    using machine_word_range [of g] by simp_all
  have "write_prefix t g =
          bind_err (writeUInt32BE (js_ushr t 16) 0 (Buffer_alloc 16)) (\<lambda>guid1.
          bind_err (writeUInt16BE (js_and t 0xFFFF) 4 guid1) (\<lambda>guid2.
          bind_err (writeUInt16BE
                      (js_or (js_and (machine_high g) 0xFFF0) (js_and (sequence g) 0x000F))
                      6 guid2) (\<lambda>guid3.
          writeUInt16BE (machine_low g) 8 guid3)))"
    by (simp add: write_prefix_def m bind_err_def)
  also note pack_explicit [OF hi lo ms ml]
  finally show ?thesis by (simp add: prefix_bytes_def Let_def)
qed

lemma Buffer_copy_random:
  "length r = 6 \<Longrightarrow> length p = 10 \<Longrightarrow> Buffer_copy r (p @ replicate 6 0) 10 = p @ r"
  by (simp add: Buffer_copy_def)

lemma prefix_bytes_length [simp]: "length (prefix_bytes t g) = 10"
  by (simp add: prefix_bytes_def Let_def)

lemma generate_unfold:
  assumes "length (machineId g) = 4"
  shows "generate (g, w) =
           (case getTimestamp (clock w (clock_reads w)) (g, w\<lparr>clock_reads := Suc (clock_reads w)\<rparr>) of
              None \<Rightarrow> None
            | Some (t, g', w2) \<Rightarrow>
                Some (Inr (formatGuid (prefix_bytes t g' @ drawn w2)), g',
                      w2\<lparr>entropy_used := entropy_used w2 + 6\<rparr>))"
proof (cases "getTimestamp (clock w (clock_reads w)) (g, w\<lparr>clock_reads := Suc (clock_reads w)\<rparr>)")
  case None
  then show ?thesis by (simp add: generate_def Date_now_def)
next
  case (Some res)
  obtain t g' w2 where res: "res = (t, g', w2)" by (cases res) auto
  from getTimestamp_result(1) [OF Some [unfolded res]]
  have "machineId g' = machineId g" by (metis generator.select_convs(1) generator.surjective generator.update_convs(3,4))
  with assms have "length (machineId g') = 4" by simp
  from write_prefix_explicit [OF this, of t] show ?thesis
    by (simp add: generate_def Date_now_def Some res randomBytes_def Buffer_copy_random drawn_def)
qed

lemma generate_state:
  assumes "generate (g, w) = Some (r, g', w')"
  shows "\<exists>t w2. getTimestamp (clock w (clock_reads w)) (g, w\<lparr>clock_reads := Suc (clock_reads w)\<rparr>)
                  = Some (t, g', w2)"
  using assms
  by (auto simp: generate_def Date_now_def randomBytes_def split: option.splits sum.splits prod.splits)

lemma be32_lin:
  "v = 256 * x + d \<Longrightarrow> x = 256 * y + c \<Longrightarrow> y = 256 * a + b \<Longrightarrow>
     a * 16777216 + b * 65536 + c * 256 + d = (v :: int)"
  by simp

lemma be32_value:
  assumes "0 \<le> v" "v < 4294967296"
  shows "uint (word_of_int (v div 16777216) :: byte) * 16777216
         + uint (word_of_int (v div 65536) :: byte) * 65536
         + uint (word_of_int (v div 256) :: byte) * 256
         + uint (word_of_int v :: byte) = v"
proof -
  have d1: "v div 256 div 256 = v div 65536"
    using zdiv_zmult2_eq [of 256 v 256] by simp
  have d2: "v div 65536 div 256 = v div 16777216"
    using zdiv_zmult2_eq [of 256 v 65536] by simp
  have e1: "v = 256 * (v div 256) + v mod 256"
    by (metis mult_div_mod_eq)
  have e2: "v div 256 = 256 * (v div 65536) + v div 256 mod 256"
    by (metis d1 mult_div_mod_eq)
  have e3: "v div 65536 = 256 * (v div 16777216) + v div 65536 mod 256"
    by (metis d2 mult_div_mod_eq)
  have "0 \<le> v div 16777216" "v div 16777216 < 256" using assms by simp_all
  then have e4: "v div 16777216 mod 256 = v div 16777216" by simp
  have "(v div 16777216) * 16777216 + (v div 65536 mod 256) * 65536
          + (v div 256 mod 256) * 256 + v mod 256 = v"
    by (rule be32_lin [OF e1 e2 e3])
  then show ?thesis by (simp only: uint_word_of_int e4 len_bit0 len_num1 mult_1_right)
     (simp add: e4)
qed



lemma be16_value:
  assumes "0 \<le> v" "v < 65536"
  shows "uint (word_of_int (v div 256) :: byte) * 256 + uint (word_of_int v :: byte) = v"
  using assms by (simp add: uint_word_of_int)

lemma read_explicit:
  "readUInt32BE (a # b # c # d # rest) 0
     = Inr (uint a * 16777216 + uint b * 65536 + uint c * 256 + uint d)"
  "readUInt16BE (a # b # c # d # e # f # rest) 4 = Inr (uint e * 256 + uint f)"
  by (simp_all add: readUInt32BE_def readUInt16BE_def)

lemma prefix_reads:
  "readUInt32BE (prefix_bytes t g @ r) 0 = Inr (js_ushr t 16)"
  "readUInt16BE (prefix_bytes t g @ r) 4 = Inr (js_and t 0xFFFF)"
proof -
  have hi: "0 \<le> js_ushr t 16" "js_ushr t 16 < 4294967296"
    using js_ushr_16_range [of t] by simp_all
  have lo: "0 \<le> js_and t 0xFFFF" "js_and t 0xFFFF < 65536"
    using js_and_nonneg_mask(2,3) [of "0xFFFF" t] by simp_all
  show "readUInt32BE (prefix_bytes t g @ r) 0 = Inr (js_ushr t 16)"
    using be32_value [OF hi]
    by (simp add: prefix_bytes_def Let_def read_explicit)
  show "readUInt16BE (prefix_bytes t g @ r) 4 = Inr (js_and t 0xFFFF)"
    using be16_value [OF lo]
    by (simp add: prefix_bytes_def Let_def read_explicit)
qed

lemma or_push_take: "push_bit n (a :: int) OR take_bit n b = push_bit n a + take_bit n b"
  by (rule disjunctive_add [symmetric]) (auto simp: bit_simps)

lemma js_shl_16_small:
  assumes "0 \<le> h" "h * 65536 < 2 ^ 31"
  shows "js_shl h 16 = h * 65536"
proof -
  have "js_shl h 16 = sint (word_of_int (h * 65536) :: 32 word)"
    by (simp add: js_shl_def push_bit_eq_mult)
  also have "\<dots> = signed_take_bit (LENGTH(32) - 1) (h * 65536)" by (rule sint_sbintrunc')
  also have "\<dots> = signed_take_bit 31 (h * 65536)" by simp
  also have "\<dots> = h * 65536" using assms by (intro stb_id) simp_all
  finally show ?thesis .
qed

lemma tick_reassembled:
  assumes "0 \<le> t" "t < 2 ^ 31"
  shows "js_or (js_shl (js_ushr t 16) 16) (js_and t 0xFFFF) = t"
proof -
  have hi: "js_ushr t 16 = t div 65536" using assms by (simp add: js_ushr_16)
  have lo: "js_and t 0xFFFF = t mod 65536" by (rule js_and_FFFF)
  have h0: "0 \<le> t div 65536" using assms by simp
  have dm: "t div 65536 * 65536 + t mod 65536 = t" by simp
  then have h1: "t div 65536 * 65536 < 2 ^ 31" using assms
    by (smt (verit) pos_mod_sign)
  have sh: "js_shl (t div 65536) 16 = t div 65536 * 65536"
    by (rule js_shl_16_small [OF h0 h1])
  have "t div 65536 * 65536 OR t mod 65536 = push_bit 16 (t div 65536) OR take_bit 16 t"
    by (simp add: push_bit_eq_mult take_bit_eq_mod)
  also have "\<dots> = t div 65536 * 65536 + t mod 65536"
    by (simp only: or_push_take) (simp add: push_bit_eq_mult take_bit_eq_mod)
  also have "\<dots> = t" by (rule dm)
  finally have orv: "t div 65536 * 65536 OR t mod 65536 = t" .
  have "js_or (t div 65536 * 65536) (t mod 65536) = signed_take_bit 31 t"
    by (simp add: js_or_int orv)
  also have "\<dots> = t" using assms by (intro stb_id)
  finally show ?thesis by (simp add: hi lo sh)
qed

lemma generate_new_tick:
  assumes len: "length (machineId g) = 4"
    and c: "c = (clock w (clock_reads w) - epoch g) * TICKS_PER_MILLISECOND"
    and new: "c \<noteq> lastTimestamp g"
  shows "generate (g, w) =
           Some (Inr (formatGuid (prefix_bytes c (g\<lparr>sequence := 0, lastTimestamp := c\<rparr>) @ drawn w)),
                 g\<lparr>sequence := 0, lastTimestamp := c\<rparr>,
                 w\<lparr>clock_reads := Suc (clock_reads w), entropy_used := entropy_used w + 6\<rparr>)"
proof -
  have "tick_of g (clock w (clock_reads w)) \<noteq> lastTimestamp g"
    using c new by (simp add: tick_of_def)
  from getTimestamp_new_tick [OF this] show ?thesis
    by (simp add: generate_unfold [OF len] tick_of_def c drawn_def)
qed

lemma generate_same_tick:
  assumes len: "length (machineId g) = 4"
    and c: "c = (clock w (clock_reads w) - epoch g) * TICKS_PER_MILLISECOND"
    and same: "c = lastTimestamp g" "(sequence g + 1) mod 16 \<noteq> 0"
  shows "generate (g, w) =
           Some (Inr (formatGuid (prefix_bytes c (g\<lparr>sequence := (sequence g + 1) mod 16,
                                                   lastTimestamp := c\<rparr>) @ drawn w)),
                 g\<lparr>sequence := (sequence g + 1) mod 16, lastTimestamp := c\<rparr>,
                 w\<lparr>clock_reads := Suc (clock_reads w), entropy_used := entropy_used w + 6\<rparr>)"
proof -
  have "tick_of g (clock w (clock_reads w)) = lastTimestamp g"
    using c same by (simp add: tick_of_def)
  from getTimestamp_same_tick [OF this same(2)] show ?thesis
    by (simp add: generate_unfold [OF len] tick_of_def c drawn_def)
qed

lemma drawn_length [simp]: "length (drawn w) = 6"
  by (simp add: drawn_def)

lemma guid_of_prefix:
  "guidToBuffer (formatGuid (prefix_bytes t g @ drawn w)) = Inr (prefix_bytes t g @ drawn w)"
  by (rule guidToBuffer_formatGuid) simp

lemma extractTimestamp_generated:
  assumes "0 \<le> t" "t < 2 ^ 31"
  shows "extractTimestamp g' (formatGuid (prefix_bytes t g @ drawn w))
           = Inr (of_int (epoch g') + of_int t / of_int TICKS_PER_MILLISECOND)"
  by (simp add: extractTimestamp_def guid_of_prefix prefix_reads bind_err_def
      tick_reassembled [OF assms])

subsection \<open>The wrap case of \<open>generate\<close>\<close>

lemma generate_wrap:
  assumes len: "length (machineId g) = 4"
    and c: "c = (clock w (clock_reads w) - epoch g) * TICKS_PER_MILLISECOND"
    and wrap: "c = lastTimestamp g" "(sequence g + 1) mod 16 = 0"
  shows "generate (g, w) =
           (case busy_wait (clock w (clock_reads w)) (w\<lparr>clock_reads := Suc (clock_reads w)\<rparr>) of
              None \<Rightarrow> None
            | Some w1 \<Rightarrow>
                (let t = tick_of g (clock w1 (clock_reads w1));
                     g' = g\<lparr>sequence := (if t = lastTimestamp g then 1 else 0),
                            lastTimestamp := t\<rparr>
                 in Some (Inr (formatGuid (prefix_bytes t g' @ drawn w1)), g',
                          w1\<lparr>clock_reads := Suc (clock_reads w1),
                             entropy_used := entropy_used w1 + 6\<rparr>)))"
proof -
  have eq: "tick_of g (clock w (clock_reads w)) = lastTimestamp g"
    using c wrap by (simp add: tick_of_def)
  have s0: "\<And>v. getTimestamp v (g\<lparr>sequence := (sequence g + 1) mod 16\<rparr>, w') =
     Some (tick_of g v, g\<lparr>sequence := (if tick_of g v = lastTimestamp g then 1 else 0),
                            lastTimestamp := tick_of g v\<rparr>, w')" for w'
    using getTimestamp_after_wrap [of "g\<lparr>sequence := (sequence g + 1) mod 16\<rparr>"] wrap(2)
    by simp
  show ?thesis
    unfolding generate_unfold [OF len] getTimestamp_wrap [OF eq wrap(2)]
    by (simp add: s0 Date_now_def drawn_def Let_def split: option.splits)
qed

lemma generate_keeps_getTimestamp_state:
  assumes "getTimestamp (clock w (clock_reads w)) (g, w\<lparr>clock_reads := Suc (clock_reads w)\<rparr>)
             = Some (t, g', w2)"
  shows "\<exists>r w'. generate (g, w) = Some (r, g', w')"
  using assms
  by (cases "write_prefix t g'") (simp_all add: generate_def Date_now_def randomBytes_def)

subsection \<open>The batch loop\<close>

declare batch_loop.simps [simp del]

lemma generate_wf_result:
  assumes len: "length (machineId g) = 4"
    and gen: "generate (g, w) = Some (r, g', w')"
  shows "\<exists>t w2. getTimestamp (clock w (clock_reads w)) (g, w\<lparr>clock_reads := Suc (clock_reads w)\<rparr>)
                  = Some (t, g', w2) \<and>
                r = Inr (formatGuid (prefix_bytes t g' @ drawn w2)) \<and>
                w' = w2\<lparr>entropy_used := entropy_used w2 + 6\<rparr>"
  using gen unfolding generate_unfold [OF len] by (auto split: option.splits)

lemma getTimestamp_fields:
  assumes "getTimestamp now (g, w) = Some (t, g', w')"
  shows "machineId g' = machineId g" and "epoch g' = epoch g" and "lastTimestamp g' = t"
    and "clock w' = clock w" and "entropy w' = entropy w" and "entropy_used w' = entropy_used w"
proof -
  note r = getTimestamp_result [OF assms]
  from r(1) show "machineId g' = machineId g" and "epoch g' = epoch g" and "lastTimestamp g' = t"
    by (metis generator.select_convs generator.surjective generator.update_convs)+
  from r(4) show "clock w' = clock w" and "entropy w' = entropy w"
    and "entropy_used w' = entropy_used w"
    by (metis world.select_convs world.surjective world.update_convs)+
qed

lemma generate_fields:
  assumes "generate (g, w) = Some (r, g', w')"
  shows "machineId g' = machineId g" and "epoch g' = epoch g" and "clock w' = clock w"
    and "clock_reads w < clock_reads w'"
proof -
  from assms obtain t w2 where
    gt: "getTimestamp (clock w (clock_reads w)) (g, w\<lparr>clock_reads := Suc (clock_reads w)\<rparr>)
           = Some (t, g', w2)"
    and w': "w' = w2 \<or> w' = w2\<lparr>entropy_used := entropy_used w2 + 6\<rparr>"
    by (auto simp: generate_def Date_now_def randomBytes_def
        split: option.splits sum.splits prod.splits)
  from getTimestamp_fields [OF gt] getTimestamp_result(5) [OF gt] w'
  show "machineId g' = machineId g" and "epoch g' = epoch g" and "clock w' = clock w"
    and "clock_reads w < clock_reads w'"
    by auto
qed

lemma isValidGuid_formatGuid: "length buf = 16 \<Longrightarrow> isValidGuid (formatGuid buf)"
  by (subst list16, assumption) (rule isValidGuid_formatGuid_explicit)

lemma batch_loop_shape:
  assumes "length (machineId (fst gw)) = 4"
    and "batch_loop i count guids gw = Some (res, gw')"
  shows "\<exists>new. res = Inr (guids @ new) \<and> int (length new) = max 0 (count - i) \<and>
               list_all isValidGuid new"
  using assms
proof (induction i count guids gw rule: batch_loop.induct)
  case (1 i count guids gw)
  obtain g w where gw: "gw = (g, w)" by (cases gw)
  show ?case
  proof (cases "i < count")
    case False
    with "1.prems"(2) show ?thesis by (simp add: batch_loop.simps)
  next
    case True
    with "1.prems"(2) obtain r g1 w1 where gen: "generate gw = Some (r, g1, w1)"
      by (subst (asm) batch_loop.simps) (auto split: option.splits)
    from generate_wf_result [OF _ gen [unfolded gw]] "1.prems"(1) gw
    obtain t w2 where r: "r = Inr (formatGuid (prefix_bytes t g1 @ drawn w2))" by auto
    have valid: "isValidGuid (formatGuid (prefix_bytes t g1 @ drawn w2))"
      by (rule isValidGuid_formatGuid) simp
    from generate_fields(1) [OF gen [unfolded gw]] "1.prems"(1) gw
    have len1: "length (machineId (fst (g1, w1))) = 4" by simp
    from "1.prems"(2) True gen r
    have rec: "batch_loop (i + 1) count (guids @ [formatGuid (prefix_bytes t g1 @ drawn w2)]) (g1, w1)
                 = Some (res, gw')"
      by (subst (asm) batch_loop.simps) simp
    from "1.IH" [OF True gen refl r len1 rec]
    obtain new where "res = Inr ((guids @ [formatGuid (prefix_bytes t g1 @ drawn w2)]) @ new)"
      "int (length new) = max 0 (count - (i + 1))" "list_all isValidGuid new" by blast
    with True valid show ?thesis
      by (intro exI [of _ "formatGuid (prefix_bytes t g1 @ drawn w2) # new"]) simp
  qed
qed

subsection \<open>The batch loop yields the identifiers in the order of the calls\<close>

lemma batch_loop_in_order:
  "batch_loop i count guids gw =
     (case generate_in_order (nat (count - i)) gw of
        None \<Rightarrow> None
      | Some (Inl e, gw') \<Rightarrow> Some (Inl e, gw')
      | Some (Inr new, gw') \<Rightarrow> Some (Inr (guids @ new), gw'))"
proof (induction i count guids gw rule: batch_loop.induct)
  case (1 i count guids gw)
  show ?case
  proof (cases "i < count")
    case False
    then show ?thesis by (simp add: batch_loop.simps)
  next
    case True
    then have n: "nat (count - i) = Suc (nat (count - (i + 1)))" by simp
    show ?thesis
    proof (cases "generate gw")
      case None
      with True show ?thesis by (simp add: batch_loop.simps n)
    next
      case (Some a)
      obtain r gw1 where a: "a = (r, gw1)" by (cases a)
      show ?thesis
      proof (cases r)
        case (Inl e)
        with True Some a show ?thesis by (simp add: batch_loop.simps n)
      next
        case (Inr guid)
        from "1.IH" [OF True Some [unfolded a Inr] refl refl]
        have "batch_loop (i + 1) count (guids @ [guid]) gw1 =
                (case generate_in_order (nat (count - (i + 1))) gw1 of
                   None \<Rightarrow> None
                 | Some (Inl e, gw') \<Rightarrow> Some (Inl e, gw')
                 | Some (Inr new, gw') \<Rightarrow> Some (Inr ((guids @ [guid]) @ new), gw'))" .
        with True Some a Inr show ?thesis
          by (subst batch_loop.simps) (simp add: n split: option.splits sum.splits prod.splits)
      qed
    qed
  qed
qed

lemma generateBatch_in_order:
  "0 < count \<Longrightarrow> generateBatch count gw = generate_in_order (nat count) gw"
  by (simp add: generateBatch_def batch_loop_in_order [of 0 count "[]" gw]
      split: option.splits sum.splits prod.splits)

subsection \<open>Returning under an advancing clock\<close>

lemma getTimestamp_returns:
  assumes "\<exists>m. clock_reads w \<le> m \<and> now < clock w m"
  shows "\<exists>res. getTimestamp now (g, w) = Some res"
proof (cases "tick_of g now = lastTimestamp g")
  case False
  from getTimestamp_new_tick [OF this] show ?thesis by simp
next
  case eq: True
  show ?thesis
  proof (cases "(sequence g + 1) mod 16 = 0")
    case False
    from getTimestamp_same_tick [OF eq this] show ?thesis by simp
  next
    case wrap: True
    from assms obtain m where "clock_reads w \<le> m" "now < clock w m" by blast
    from busy_wait_terminates [OF this] obtain w1 where w1: "busy_wait now w = Some w1" by blast
    have "sequence (g\<lparr>sequence := (sequence g + 1) mod 16\<rparr>) = 0" using wrap by simp
    from getTimestamp_after_wrap [OF this] show ?thesis
      unfolding getTimestamp_wrap [OF eq wrap] w1 by simp
  qed
qed

lemma generate_returns:
  assumes "clock_advances (clock w)"
  shows "\<exists>res. generate (g, w) = Some res"
proof -
  from assms obtain m where "clock_reads w < m" "clock w (clock_reads w) < clock w m"
    unfolding clock_advances_def by blast
  then have "\<exists>m. clock_reads (w\<lparr>clock_reads := Suc (clock_reads w)\<rparr>) \<le> m \<and>
                 clock w (clock_reads w) < clock (w\<lparr>clock_reads := Suc (clock_reads w)\<rparr>) m"
    by (intro exI [of _ m]) simp
  from getTimestamp_returns [OF this, of g] obtain t g' w2 where
    "getTimestamp (clock w (clock_reads w)) (g, w\<lparr>clock_reads := Suc (clock_reads w)\<rparr>)
       = Some (t, g', w2)"
    by (metis prod_cases3)
  from generate_keeps_getTimestamp_state [OF this] show ?thesis by blast
qed

lemma batch_loop_returns:
  assumes "clock_advances (clock (snd gw))"
  shows "\<exists>res. batch_loop i count guids gw = Some res"
  using assms
proof (induction i count guids gw rule: batch_loop.induct)
  case (1 i count guids gw)
  obtain g w where gw: "gw = (g, w)" by (cases gw)
  show ?case
  proof (cases "i < count")
    case False
    then show ?thesis by (simp add: batch_loop.simps)
  next
    case True
    from generate_returns [of w g] "1.prems" gw
    obtain r g1 w1 where gen: "generate gw = Some (r, g1, w1)" by (metis prod_cases3 snd_conv)
    show ?thesis
    proof (cases r)
      case (Inl e)
      with True gen show ?thesis by (subst batch_loop.simps) simp
    next
      case (Inr guid)
      from generate_fields(3) [OF gen [unfolded gw]] "1.prems" gw
      have "clock_advances (clock (snd (g1, w1)))" by simp
      from "1.IH" [OF True gen refl Inr this] True gen Inr show ?thesis
        by (subst batch_loop.simps) simp
    qed
  qed
qed

subsection \<open>The key carried by a generated identifier\<close>

lemma read_explicit6:
  "readUInt16BE (a # b # c # d # e # f # x # y # rest) 6 = Inr (uint x * 256 + uint y)"
  by (simp add: readUInt16BE_def)

lemma prefix_read_machine_word:
  "readUInt16BE (prefix_bytes t g @ r) 6
     = Inr (js_or (js_and (machine_high g) 0xFFF0) (js_and (sequence g) 0x000F))"
proof -
  have ms: "0 \<le> js_or (js_and (machine_high g) 0xFFF0) (js_and (sequence g) 0x000F)"
    "js_or (js_and (machine_high g) 0xFFF0) (js_and (sequence g) 0x000F) < 65536"
    using machine_word_range [of g] by simp_all
  show ?thesis
    using be16_value [OF ms]
    by (simp add: prefix_bytes_def Let_def read_explicit6)
qed

lemma machine_word_low_nibble:
  assumes "0 \<le> s" "s \<le> 15"
  shows "js_or (js_and m 0xFFF0) (js_and s 0x000F) mod 16 = s"
proof -
  have a: "js_and m 0xFFF0 = m AND 0xFFF0" "0 \<le> js_and m 0xFFF0" "js_and m 0xFFF0 < 2 ^ 16"
    using js_and_nonneg_mask [of "0xFFF0" m] by simp_all
  have b: "js_and s 0x000F = s" using assms by (simp add: js_and_15)
  have e: "js_or (js_and m 0xFFF0) (js_and s 0x000F) = (m AND 0xFFF0) OR s"
    using js_or_small(1) [OF a(2,3), of s] assms a(1) b by simp
  have z: "take_bit 4 (0xFFF0 :: int) = 0" by (simp add: take_bit_eq_mod)
  have s: "take_bit 4 s = s" using assms by (simp add: take_bit_eq_mod)
  have "((m AND 0xFFF0) OR s) mod 16 = take_bit 4 ((m AND 0xFFF0) OR s)"
    by (simp add: take_bit_eq_mod)
  also have "\<dots> = (take_bit 4 m AND take_bit 4 (0xFFF0 :: int)) OR take_bit 4 s"
    by (simp only: take_bit_or take_bit_and)
  also have "\<dots> = s" by (simp only: z s) simp
  finally show ?thesis by (simp only: e)
qed

lemma tick_halves_mod: "js_ushr t 16 * 65536 + js_and t 0xFFFF = t mod 2 ^ 32"
proof -
  have "t mod 65536 = (t mod 4294967296) mod 65536"
    by (simp add: mod_mod_cancel)
  then show ?thesis
    by (simp add: js_ushr_16 js_and_FFFF)
qed

lemma key_mod:
  assumes "0 \<le> s" "s \<le> 15"
  shows "(t mod 2 ^ 32) * 16 + s = (t * 16 + s) mod (2 ^ 36 :: int)"
proof -
  have d: "(t * 16 + s) div 16 = t" and m: "(t * 16 + s) mod 16 = s"
    using assms by simp_all
  have "(t * 16 + s) mod (16 * 2 ^ 32) = 16 * ((t * 16 + s) div 16 mod 2 ^ 32) + (t * 16 + s) mod 16"
    by (rule zmod_zmult2_eq) simp
  then show ?thesis by (simp only: d m) simp
qed

lemma key_alias:
  assumes lt: "K < K'" and eq: "K mod 2 ^ 36 = K' mod (2 ^ 36 :: int)"
  shows "K div 16 < K' div 16 \<and> (K' div 16 - K div 16) mod 2 ^ 32 = 0"
proof -
  from eq have "(2 ^ 36 :: int) dvd K' - K" by (metis mod_eq_dvd_iff)
  then obtain j where j: "K' - K = 2 ^ 36 * j" by (auto simp: dvd_def)
  with lt have jp: "0 < j" by (simp add: zero_less_mult_iff)
  from j have "K' = K + 16 * (j * 2 ^ 32)" by simp
  then have "K' div 16 = j * 2 ^ 32 + K div 16" by simp
  with jp show ?thesis by simp
qed

lemma guid_key_generated_mod:
  assumes "0 \<le> sequence g" "sequence g \<le> 15"
  shows "guid_key (formatGuid (prefix_bytes t g @ drawn w)) = (t * 16 + sequence g) mod 2 ^ 36"
proof -
  have "guid_key (formatGuid (prefix_bytes t g @ drawn w))
          = (js_ushr t 16 * 65536 + js_and t 0xFFFF) * 16
            + js_or (js_and (machine_high g) 0xFFF0) (js_and (sequence g) 0x000F) mod 16"
    by (simp add: guid_key_def guid_of_prefix bind_err_def prefix_reads
        prefix_read_machine_word)
  then show ?thesis
    by (simp only: tick_halves_mod machine_word_low_nibble [OF assms] key_mod [OF assms])
qed

subsection \<open>The cursor under a non-decreasing clock\<close>

lemma tick_of_mono: "a \<le> b \<Longrightarrow> tick_of g a \<le> tick_of g b"
  by (simp add: tick_of_def TICKS_PER_MILLISECOND_def)

lemma tick_of_strict: "a < b \<Longrightarrow> tick_of g a < tick_of g b"
  by (simp add: tick_of_def TICKS_PER_MILLISECOND_def)

lemma getTimestamp_advances_cursor:
  assumes mono: "mono (clock w)"
    and k: "0 < clock_reads w" "now = clock w (clock_reads w - 1)"
    and last: "lastTimestamp g \<le> tick_of g now"
    and seq: "0 \<le> sequence g" "sequence g \<le> 15"
    and res: "getTimestamp now (g, w) = Some (t, g', w')"
  shows "cursor_key g < cursor_key g' \<and> lastTimestamp g \<le> t \<and>
         t = tick_of g (clock w (clock_reads w' - 1))"
proof (cases "tick_of g now = lastTimestamp g")
  case new: False
  from res [unfolded getTimestamp_new_tick [OF new]] last new k seq
  show ?thesis by (auto simp: cursor_key_def)
next
  case eq: True
  show ?thesis
  proof (cases "(sequence g + 1) mod 16 = 0")
    case same: False
    from seq same have "sequence g < 15" by (cases "sequence g = 15") simp_all
    with seq have m: "(sequence g + 1) mod 16 = sequence g + 1" by simp
    from res [unfolded getTimestamp_same_tick [OF eq same]] eq k m
    show ?thesis by (auto simp: cursor_key_def)
  next
    case wrap: True
    from res obtain w1 where w1: "busy_wait now w = Some w1"
      and r: "getTimestamp (fst (Date_now w1))
                (g\<lparr>sequence := (sequence g + 1) mod 16\<rparr>, snd (Date_now w1))
              = Some (t, g', w')"
      unfolding getTimestamp_wrap [OF eq wrap] by (auto split: option.splits)
    from busy_wait_Some [OF w1]
    have bw: "w1 = w\<lparr>clock_reads := clock_reads w1\<rparr>" "clock_reads w < clock_reads w1"
      "now < clock w (clock_reads w1 - 1)" by simp_all
    have cw1: "clock w1 = clock w"
      using bw(1) by (metis world.select_convs(1) world.surjective world.update_convs(2))
    have "clock w (clock_reads w1 - 1) \<le> clock w (clock_reads w1)"
      using mono by (simp add: monoD)
    with bw(3) have later: "now < clock w (clock_reads w1)" by simp
    let ?now' = "clock w (clock_reads w1)"
    have s0: "sequence (g\<lparr>sequence := (sequence g + 1) mod 16\<rparr>) = 0" using wrap by simp
    have neq: "tick_of g ?now' \<noteq> lastTimestamp g"
      using tick_of_strict [OF later, of g] eq by simp
    from r [unfolded getTimestamp_after_wrap [OF s0]] neq cw1
    have t: "t = tick_of g ?now'" and g': "g' = g\<lparr>sequence := 0, lastTimestamp := t\<rparr>"
      and w': "w' = w1\<lparr>clock_reads := Suc (clock_reads w1)\<rparr>"
      by (auto simp: Date_now_def)
    have "lastTimestamp g < t" using tick_of_strict [OF later, of g] eq t by simp
    with seq g' t w' show ?thesis by (auto simp: cursor_key_def)
  qed
qed

lemma generate_advances_cursor:
  assumes mono: "mono (clock w)" and len: "length (machineId g) = 4"
    and last: "lastTimestamp g \<le> tick_of g (clock w (clock_reads w))"
    and seq: "0 \<le> sequence g" "sequence g \<le> 15"
    and gen: "generate (g, w) = Some (r, g', w')"
  shows "cursor_key g < cursor_key g'"
    and "lastTimestamp g \<le> lastTimestamp g'"
    and "lastTimestamp g' = tick_of g (clock w (clock_reads w' - 1))"
    and "lastTimestamp g' \<le> tick_of g' (clock w' (clock_reads w'))"
    and "0 \<le> sequence g'" and "sequence g' \<le> 15"
    and "\<exists>w2. r = Inr (formatGuid (prefix_bytes (lastTimestamp g') g' @ drawn w2))"
proof -
  let ?w = "w\<lparr>clock_reads := Suc (clock_reads w)\<rparr>"
  from generate_wf_result [OF len gen] obtain t w2 where
    gt: "getTimestamp (clock w (clock_reads w)) (g, ?w) = Some (t, g', w2)"
    and r: "r = Inr (formatGuid (prefix_bytes t g' @ drawn w2))"
    and w': "w' = w2\<lparr>entropy_used := entropy_used w2 + 6\<rparr>" by blast
  have adv: "cursor_key g < cursor_key g' \<and> lastTimestamp g \<le> t \<and>
             t = tick_of g (clock ?w (clock_reads w2 - 1))"
    by (rule getTimestamp_advances_cursor [OF _ _ _ last seq gt]) (simp_all add: mono)
  note f = getTimestamp_fields [OF gt]
  note res = getTimestamp_result [OF gt]
  have t: "lastTimestamp g' = t" by (rule f(3))
  have reads: "clock_reads w' = clock_reads w2" using w' by simp
  have clk: "clock w' = clock w" using w' f(4) by simp
  show "cursor_key g < cursor_key g'" using adv by simp
  show "lastTimestamp g \<le> lastTimestamp g'" using adv t by simp
  show 3: "lastTimestamp g' = tick_of g (clock w (clock_reads w' - 1))"
    using adv t reads by simp
  have "tick_of g' = tick_of g" using f(2) by (simp add: tick_of_def fun_eq_iff)
  moreover have "clock w (clock_reads w' - 1) \<le> clock w (clock_reads w')"
    using mono by (simp add: monoD)
  ultimately show "lastTimestamp g' \<le> tick_of g' (clock w' (clock_reads w'))"
    using 3 clk tick_of_mono by simp
  show "0 \<le> sequence g'" and "sequence g' \<le> 15" using res(2,3) by simp_all
  show "\<exists>w2. r = Inr (formatGuid (prefix_bytes (lastTimestamp g') g' @ drawn w2))"
    using r t by blast
qed

text \<open>Whatever the cursor was, one call of \<open>generate\<close> leaves it at the last reading.\<close>

lemma getTimestamp_last_reading:
  assumes mono: "mono (clock w)"
    and k: "0 < clock_reads w" "now = clock w (clock_reads w - 1)"
    and res: "getTimestamp now (g, w) = Some (t, g', w')"
  shows "t = tick_of g (clock w (clock_reads w' - 1))"
proof (cases "tick_of g now = lastTimestamp g")
  case new: False
  from res [unfolded getTimestamp_new_tick [OF new]] k
  show ?thesis by auto
next
  case eq: True
  show ?thesis
  proof (cases "(sequence g + 1) mod 16 = 0")
    case same: False
    from res [unfolded getTimestamp_same_tick [OF eq same]] k
    show ?thesis by auto
  next
    case wrap: True
    from res obtain w1 where w1: "busy_wait now w = Some w1"
      and r: "getTimestamp (fst (Date_now w1))
                (g\<lparr>sequence := (sequence g + 1) mod 16\<rparr>, snd (Date_now w1))
              = Some (t, g', w')"
      unfolding getTimestamp_wrap [OF eq wrap] by (auto split: option.splits)
    from busy_wait_Some [OF w1]
    have bw: "w1 = w\<lparr>clock_reads := clock_reads w1\<rparr>" by simp
    have cw1: "clock w1 = clock w"
      using bw by (metis world.select_convs(1) world.surjective world.update_convs(2))
    have s0: "sequence (g\<lparr>sequence := (sequence g + 1) mod 16\<rparr>) = 0" using wrap by simp
    from r [unfolded getTimestamp_after_wrap [OF s0]] cw1
    show ?thesis by (auto simp: Date_now_def)
  qed
qed

lemma generate_restores_invariant:
  assumes mono: "mono (clock w)" and len: "length (machineId g) = 4"
    and gen: "generate (g, w) = Some (r, g', w')"
  shows "lastTimestamp g' = tick_of g (clock w (clock_reads w' - 1))"
    and "lastTimestamp g' \<le> tick_of g' (clock w' (clock_reads w'))"
    and "0 \<le> sequence g'" and "sequence g' \<le> 15"
    and "\<exists>w2. r = Inr (formatGuid (prefix_bytes (lastTimestamp g') g' @ drawn w2))"
proof -
  let ?w = "w\<lparr>clock_reads := Suc (clock_reads w)\<rparr>"
  from generate_wf_result [OF len gen] obtain t w2 where
    gt: "getTimestamp (clock w (clock_reads w)) (g, ?w) = Some (t, g', w2)"
    and r: "r = Inr (formatGuid (prefix_bytes t g' @ drawn w2))"
    and w': "w' = w2\<lparr>entropy_used := entropy_used w2 + 6\<rparr>" by blast
  have adv: "t = tick_of g (clock ?w (clock_reads w2 - 1))"
    by (rule getTimestamp_last_reading [OF _ _ _ gt]) (simp_all add: mono)
  note f = getTimestamp_fields [OF gt]
  note res = getTimestamp_result [OF gt]
  have t: "lastTimestamp g' = t" by (rule f(3))
  have reads: "clock_reads w' = clock_reads w2" using w' by simp
  have clk: "clock w' = clock w" using w' f(4) by simp
  show 3: "lastTimestamp g' = tick_of g (clock w (clock_reads w' - 1))"
    using adv t reads by simp
  have "tick_of g' = tick_of g" using f(2) by (simp add: tick_of_def fun_eq_iff)
  moreover have "clock w (clock_reads w' - 1) \<le> clock w (clock_reads w')"
    using mono by (simp add: monoD)
  ultimately show "lastTimestamp g' \<le> tick_of g' (clock w' (clock_reads w'))"
    using 3 clk tick_of_mono by simp
  show "0 \<le> sequence g'" and "sequence g' \<le> 15" using res(2,3) by simp_all
  show "\<exists>w2. r = Inr (formatGuid (prefix_bytes (lastTimestamp g') g' @ drawn w2))"
    using r t by blast
qed

lemma batch_loop_frame:
  assumes "batch_loop i count guids gw = Some (res, gw')"
  shows "clock (snd gw') = clock (snd gw) \<and> clock_reads (snd gw) \<le> clock_reads (snd gw') \<and>
         epoch (fst gw') = epoch (fst gw)"
  using assms
proof (induction i count guids gw rule: batch_loop.induct)
  case (1 i count guids gw)
  obtain g w where gw: "gw = (g, w)" by (cases gw)
  show ?case
  proof (cases "i < count")
    case False
    with "1.prems" show ?thesis by (simp add: batch_loop.simps)
  next
    case True
    with "1.prems" obtain r g1 w1 where gen: "generate gw = Some (r, g1, w1)"
      by (subst (asm) batch_loop.simps) (auto split: option.splits)
    note gf = generate_fields [OF gen [unfolded gw]]
    show ?thesis
    proof (cases r)
      case (Inl e)
      with "1.prems" True gen have "gw' = (g1, w1)"
        by (subst (asm) batch_loop.simps) simp
      with gf gw show ?thesis by simp
    next
      case (Inr guid)
      with "1.prems" True gen
      have "batch_loop (i + 1) count (guids @ [guid]) (g1, w1) = Some (res, gw')"
        by (subst (asm) batch_loop.simps) simp
      from "1.IH" [OF True gen refl Inr this] gf gw show ?thesis by simp
    qed
  qed
qed

lemma batch_loop_keys:
  assumes "mono (clock (snd gw))" and "length (machineId (fst gw)) = 4"
    and "batch_loop i count guids gw = Some (Inr ids, gw')"
  shows "\<exists>new Ks. ids = guids @ new \<and> map guid_key new = map (\<lambda>K. K mod 2 ^ 36) Ks \<and>
           sorted_wrt (<) Ks \<and>
           (\<forall>K \<in> set Ks. \<exists>m. clock_reads (snd gw) \<le> m \<and> m < clock_reads (snd gw') \<and>
                             K div 16 = tick_of (fst gw) (clock (snd gw) m)) \<and>
           (lastTimestamp (fst gw) \<le> tick_of (fst gw) (clock (snd gw) (clock_reads (snd gw))) \<and>
            0 \<le> sequence (fst gw) \<and> sequence (fst gw) \<le> 15
            \<longrightarrow> (\<forall>K \<in> set Ks. cursor_key (fst gw) < K))"
  using assms
proof (induction i count guids gw rule: batch_loop.induct)
  case (1 i count guids gw)
  obtain g w where gw: "gw = (g, w)" by (cases gw)
  note prems = "1.prems" [unfolded gw fst_conv snd_conv]
  show ?case
  proof (cases "i < count")
    case False
    with prems(3) [folded gw] have "ids = guids" by (simp add: batch_loop.simps)
    then show ?thesis by (intro exI [of _ "[]"]) simp
  next
    case True
    with prems(3) [folded gw] obtain r g1 w1 where gen: "generate gw = Some (r, g1, w1)"
      by (subst (asm) batch_loop.simps) (auto split: option.splits)
    note inv = generate_restores_invariant [OF prems(1,2) gen [unfolded gw]]
    note gf = generate_fields [OF gen [unfolded gw]]
    from inv(5) obtain w2 where
      r: "r = Inr (formatGuid (prefix_bytes (lastTimestamp g1) g1 @ drawn w2))" by blast
    let ?id = "formatGuid (prefix_bytes (lastTimestamp g1) g1 @ drawn w2)"
    from prems(3) [folded gw] True gen r
    have rec: "batch_loop (i + 1) count (guids @ [?id]) (g1, w1) = Some (Inr ids, gw')"
      by (subst (asm) batch_loop.simps) simp
    from batch_loop_frame [OF rec]
    have reads: "clock_reads w1 \<le> clock_reads (snd gw')" by simp
    have tk: "tick_of g1 = tick_of g" using gf(2) by (simp add: tick_of_def fun_eq_iff)
    have key1: "guid_key ?id = cursor_key g1 mod 2 ^ 36"
      using guid_key_generated_mod [OF inv(3,4)] by (simp add: cursor_key_def)
    have div1: "cursor_key g1 div 16 = lastTimestamp g1"
      using inv(3,4) by (simp add: cursor_key_def)
    have src1: "\<exists>m. clock_reads w \<le> m \<and> m < clock_reads (snd gw') \<and>
                    cursor_key g1 div 16 = tick_of g (clock w m)"
    proof (intro exI [of _ "clock_reads w1 - 1"] conjI)
      show "clock_reads w \<le> clock_reads w1 - 1" using gf(4) by simp
      show "clock_reads w1 - 1 < clock_reads (snd gw')" using gf(4) reads by simp
      show "cursor_key g1 div 16 = tick_of g (clock w (clock_reads w1 - 1))"
        using div1 inv(1) by simp
    qed
    have "\<exists>new Ks. ids = (guids @ [?id]) @ new \<and>
           map guid_key new = map (\<lambda>K. K mod 2 ^ 36) Ks \<and> sorted_wrt (<) Ks \<and>
           (\<forall>K \<in> set Ks. \<exists>m. clock_reads (snd (g1, w1)) \<le> m \<and> m < clock_reads (snd gw') \<and>
                             K div 16 = tick_of (fst (g1, w1)) (clock (snd (g1, w1)) m)) \<and>
           (lastTimestamp (fst (g1, w1))
              \<le> tick_of (fst (g1, w1)) (clock (snd (g1, w1)) (clock_reads (snd (g1, w1)))) \<and>
            0 \<le> sequence (fst (g1, w1)) \<and> sequence (fst (g1, w1)) \<le> 15
            \<longrightarrow> (\<forall>K \<in> set Ks. cursor_key (fst (g1, w1)) < K))"
    proof (rule "1.IH" [OF True gen refl r _ _ rec])
      show "mono (clock (snd (g1, w1)))" using gf(3) prems(1) by simp
      show "length (machineId (fst (g1, w1))) = 4" using gf(1) prems(2) by simp
    qed
    then obtain new Ks where new: "ids = (guids @ [?id]) @ new"
      "map guid_key new = map (\<lambda>K. K mod 2 ^ 36) Ks" "sorted_wrt (<) Ks"
      "\<forall>K \<in> set Ks. \<exists>m. clock_reads w1 \<le> m \<and> m < clock_reads (snd gw') \<and>
                        K div 16 = tick_of g1 (clock w1 m)"
      "\<forall>K \<in> set Ks. cursor_key g1 < K"
      using inv(2,3,4) by auto
    have src: "\<forall>K \<in> set Ks. \<exists>m. clock_reads w \<le> m \<and> m < clock_reads (snd gw') \<and>
                        K div 16 = tick_of g (clock w m)"
    proof
      fix K assume "K \<in> set Ks"
      with new(4) obtain m where "clock_reads w1 \<le> m" "m < clock_reads (snd gw')"
        "K div 16 = tick_of g1 (clock w1 m)" by blast
      with gf(3,4) tk show "\<exists>m. clock_reads w \<le> m \<and> m < clock_reads (snd gw') \<and>
                        K div 16 = tick_of g (clock w m)"
        by (intro exI [of _ m]) simp
    qed
    show ?thesis
    proof (intro exI [of _ "?id # new"] exI [of _ "cursor_key g1 # Ks"] conjI impI)
      show "ids = guids @ ?id # new" using new(1) by simp
      show "map guid_key (?id # new) = map (\<lambda>K. K mod 2 ^ 36) (cursor_key g1 # Ks)"
        using new(2) key1 by simp
      show "sorted_wrt (<) (cursor_key g1 # Ks)" using new(3,5) by simp
      show "\<forall>K \<in> set (cursor_key g1 # Ks).
              \<exists>m. clock_reads (snd gw) \<le> m \<and> m < clock_reads (snd gw') \<and>
                  K div 16 = tick_of (fst gw) (clock (snd gw) m)"
        using src src1 gw by simp
    next
      assume h: "lastTimestamp (fst gw) \<le> tick_of (fst gw) (clock (snd gw) (clock_reads (snd gw))) \<and>
        0 \<le> sequence (fst gw) \<and> sequence (fst gw) \<le> 15"
      then have h': "lastTimestamp g \<le> tick_of g (clock w (clock_reads w))"
        "0 \<le> sequence g" "sequence g \<le> 15" using gw by simp_all
      from generate_advances_cursor(1) [OF prems(1,2) h' gen [unfolded gw]]
      have "cursor_key g < cursor_key g1" .
      with new(5) show "\<forall>K \<in> set (cursor_key g1 # Ks). cursor_key (fst gw) < K"
        using gw by auto
    qed
  qed
qed

lemma alias_free_distinct:
  assumes keys: "map guid_key ids = map (\<lambda>K. K mod 2 ^ 36) Ks"
    and sorted: "sorted_wrt (<) Ks"
    and src: "\<forall>K \<in> set Ks. \<exists>m. lo \<le> m \<and> m < hi \<and> K div 16 = tick_of g (clk m)"
    and free: "ticks_alias_free clk lo hi"
  shows "distinct ids"
proof -
  have no: "K mod 2 ^ 36 \<noteq> K' mod 2 ^ 36" if K: "K \<in> set Ks" "K' \<in> set Ks" "K < K'" for K K'
  proof
    assume "K mod 2 ^ 36 = K' mod 2 ^ 36"
    from key_alias [OF K(3) this]
    have lt: "K div 16 < K' div 16" and al: "(K' div 16 - K div 16) mod 2 ^ 32 = 0" by blast+
    from src K(1) obtain m where m: "lo \<le> m" "m < hi" "K div 16 = tick_of g (clk m)" by blast
    from src K(2) obtain n where n: "lo \<le> n" "n < hi" "K' div 16 = tick_of g (clk n)" by blast
    have c: "clk m < clk n"
    proof (rule ccontr)
      assume "\<not> clk m < clk n"
      then have "clk n \<le> clk m" by simp
      from tick_of_mono [OF this, of g] lt show False unfolding m(3) n(3) by simp
    qed
    have d: "K' div 16 - K div 16 = (clk n - clk m) * TICKS_PER_MILLISECOND"
      unfolding m(3) n(3) tick_of_def by (simp add: algebra_simps)
    have mi: "m \<in> {lo ..< hi}" and ni: "n \<in> {lo ..< hi}" using m n by simp_all
    from free [unfolded ticks_alias_free_def, rule_format, OF mi ni c] al
    show False unfolding d by simp
  qed
  have "inj_on (\<lambda>K. K mod 2 ^ 36) (set Ks)"
  proof (rule inj_onI)
    fix K K' assume a: "K \<in> set Ks" "K' \<in> set Ks" "K mod 2 ^ 36 = K' mod 2 ^ 36"
    show "K = K'"
    proof (rule ccontr)
      assume "K \<noteq> K'"
      then consider "K < K'" | "K' < K" by linarith
      then show False
      proof cases
        case 1
        from no [OF a(1,2) 1] a(3) show False by simp
      next
        case 2
        from no [OF a(2,1) 2] a(3) show False by simp
      qed
    qed
  qed
  moreover have "distinct Ks" using sorted strict_sorted_iff by blast
  ultimately have "distinct (map (\<lambda>K. K mod 2 ^ 36) Ks)" by (simp add: distinct_map)
  then have "distinct (map guid_key ids)" by (simp only: keys)
  then show ?thesis by (simp add: distinct_map)
qed

lemma tick_alias_multiple:
  assumes "((d :: int) * TICKS_PER_MILLISECOND) mod 2 ^ 32 = 0"
  shows "2 ^ 28 dvd d"
proof -
  from assms have "(2 ^ 32 :: int) dvd d * 10000"
    by (simp add: TICKS_PER_MILLISECOND_def dvd_eq_mod_eq_0)
  then have "(2 ^ 28 * 16 :: int) dvd (d * 625) * 16" by (simp add: mult.commute)
  then have "(2 ^ 28 :: int) dvd d * 625" by (simp only: dvd_times_right_cancel_iff)
  moreover have "coprime (2 ^ 28 :: int) 625"
  proof -
    have "coprime (2 :: int) 625" by simp
    then show ?thesis by (simp only: coprime_power_left_iff) simp
  qed
  ultimately show ?thesis by (simp add: coprime_dvd_mult_left_iff)
qed

lemma short_batch_alias_free:
  assumes mono: "mono clk"
    and span: "clk (hi - 1) - clk lo < 2 ^ 28"
  shows "ticks_alias_free clk lo hi"
  unfolding ticks_alias_free_def
proof (intro ballI impI)
  fix m n assume m: "m \<in> {lo ..< hi}" and n: "n \<in> {lo ..< hi}" and lt: "clk m < clk n"
  have a: "clk lo \<le> clk m" using mono m by (simp add: monoD)
  have "n \<le> hi - 1" using n by auto
  then have b: "clk n \<le> clk (hi - 1)" using mono by (rule monoD [rotated])
  define d where "d = clk n - clk m"
  from a b span lt have d: "0 < d" "d < 2 ^ 28" by (simp_all add: d_def)
  have "(d * TICKS_PER_MILLISECOND) mod 2 ^ 32 \<noteq> 0"
  proof
    assume "(d * TICKS_PER_MILLISECOND) mod 2 ^ 32 = 0"
    then have "2 ^ 28 dvd d" by (rule tick_alias_multiple)
    with d(1) have "2 ^ 28 \<le> d" by (rule zdvd_imp_le [rotated])
    with d(2) show False by simp
  qed
  then show "((clk n - clk m) * TICKS_PER_MILLISECOND) mod 2 ^ 32 \<noteq> 0"
    unfolding d_def .
qed

subsection \<open>The example clocks\<close>

lemma mono_wall_clock: "mono wall_clock"
  by (simp add: mono_def wall_clock_def div_le_mono)

lemma wall_clock_advances: "clock_advances wall_clock"
  unfolding clock_advances_def wall_clock_def
proof
  fix n :: nat
  show "\<exists>m. n < m \<and> 1762128000000 + int (n div 20) < 1762128000000 + int (m div 20)"
    by (intro exI [of _ "n + 20"]) simp
qed

lemma mono_ticking_clock: "mono ticking_clock"
  by (simp add: mono_def ticking_clock_def)

section \<open>Claims about generation\<close>

subsection \<open>The sequence counter\<close>

text \<open>
  C5: the sequence number is 0 after construction and lies in 0..15 after every call of
  \<open>generate\<close> that returns, whatever it was before. When the tick computed from the
  clock reading differs from \<open>lastTimestamp\<close>, the call ends with sequence 0 and that tick
  stored; when it is equal and the increment does not wrap, the call ends with the
  sequence incremented modulo 16. \<open>getTimestamp\<close> does the same at each invocation, and
  when the increment wraps it stores the incremented sequence (which is 0), waits, and
  runs again with a fresh reading.
\<close>

theorem sequence_cursor:
  "(fst (new_generator opt_machineId opt_epoch w0) = Inr g0 \<longrightarrow> sequence g0 = 0) \<and>
   (generate (g, w) = Some (r, g', w') \<longrightarrow> 0 \<le> sequence g' \<and> sequence g' \<le> 15) \<and>
   (let ticks = (clock w (clock_reads w) - epoch g) * TICKS_PER_MILLISECOND
    in (ticks = lastTimestamp g \<and> (sequence g + 1) mod 16 \<noteq> 0 \<longrightarrow>
          (\<exists>r w'. generate (g, w)
             = Some (r, g\<lparr>sequence := (sequence g + 1) mod 16, lastTimestamp := ticks\<rparr>, w'))) \<and>
       (ticks \<noteq> lastTimestamp g \<longrightarrow>
          (\<exists>r w'. generate (g, w) = Some (r, g\<lparr>sequence := 0, lastTimestamp := ticks\<rparr>, w')))) \<and>
   (let ticks = (now - epoch g) * TICKS_PER_MILLISECOND
    in (ticks = lastTimestamp g \<and> (sequence g + 1) mod 16 \<noteq> 0 \<longrightarrow>
          getTimestamp now (g, w)
            = Some (ticks, g\<lparr>sequence := (sequence g + 1) mod 16, lastTimestamp := ticks\<rparr>, w)) \<and>
       (ticks = lastTimestamp g \<and> (sequence g + 1) mod 16 = 0 \<longrightarrow>
          getTimestamp now (g, w)
            = (case busy_wait now w of
                 None \<Rightarrow> None
               | Some w1 \<Rightarrow>
                   getTimestamp (fst (Date_now w1))
                     (g\<lparr>sequence := (sequence g + 1) mod 16\<rparr>, snd (Date_now w1)))) \<and>
       (ticks \<noteq> lastTimestamp g \<longrightarrow>
          getTimestamp now (g, w) = Some (ticks, g\<lparr>sequence := 0, lastTimestamp := ticks\<rparr>, w)))"
proof (intro conjI)
  show "fst (new_generator opt_machineId opt_epoch w0) = Inr g0 \<longrightarrow> sequence g0 = 0"
    by (auto simp: new_generator_def Let_def split: prod.splits if_splits)
  show "generate (g, w) = Some (r, g', w') \<longrightarrow> 0 \<le> sequence g' \<and> sequence g' \<le> 15"
  proof
    assume "generate (g, w) = Some (r, g', w')"
    from generate_state [OF this] obtain t w2 where
      "getTimestamp (clock w (clock_reads w)) (g, w\<lparr>clock_reads := Suc (clock_reads w)\<rparr>)
         = Some (t, g', w2)" by blast
    from getTimestamp_result(2,3) [OF this] show "0 \<le> sequence g' \<and> sequence g' \<le> 15" by simp
  qed
  show "let ticks = (clock w (clock_reads w) - epoch g) * TICKS_PER_MILLISECOND
    in (ticks = lastTimestamp g \<and> (sequence g + 1) mod 16 \<noteq> 0 \<longrightarrow>
          (\<exists>r w'. generate (g, w)
             = Some (r, g\<lparr>sequence := (sequence g + 1) mod 16, lastTimestamp := ticks\<rparr>, w'))) \<and>
       (ticks \<noteq> lastTimestamp g \<longrightarrow>
          (\<exists>r w'. generate (g, w) = Some (r, g\<lparr>sequence := 0, lastTimestamp := ticks\<rparr>, w')))"
    unfolding Let_def tick_of_def [symmetric]
  proof (intro conjI impI; (elim conjE)?)
    assume a: "tick_of g (clock w (clock_reads w)) = lastTimestamp g"
      "(sequence g + 1) mod 16 \<noteq> 0"
    show "\<exists>r w'. generate (g, w) = Some (r, g\<lparr>sequence := (sequence g + 1) mod 16,
            lastTimestamp := tick_of g (clock w (clock_reads w))\<rparr>, w')"
      by (rule generate_keeps_getTimestamp_state) (rule getTimestamp_same_tick [OF a])
  next
    assume a: "tick_of g (clock w (clock_reads w)) \<noteq> lastTimestamp g"
    show "\<exists>r w'. generate (g, w) = Some (r, g\<lparr>sequence := 0,
            lastTimestamp := tick_of g (clock w (clock_reads w))\<rparr>, w')"
      by (rule generate_keeps_getTimestamp_state) (rule getTimestamp_new_tick [OF a])
  qed
  show "let ticks = (now - epoch g) * TICKS_PER_MILLISECOND
    in (ticks = lastTimestamp g \<and> (sequence g + 1) mod 16 \<noteq> 0 \<longrightarrow>
          getTimestamp now (g, w)
            = Some (ticks, g\<lparr>sequence := (sequence g + 1) mod 16, lastTimestamp := ticks\<rparr>, w)) \<and>
       (ticks = lastTimestamp g \<and> (sequence g + 1) mod 16 = 0 \<longrightarrow>
          getTimestamp now (g, w)
            = (case busy_wait now w of
                 None \<Rightarrow> None
               | Some w1 \<Rightarrow>
                   getTimestamp (fst (Date_now w1))
                     (g\<lparr>sequence := (sequence g + 1) mod 16\<rparr>, snd (Date_now w1)))) \<and>
       (ticks \<noteq> lastTimestamp g \<longrightarrow>
          getTimestamp now (g, w) = Some (ticks, g\<lparr>sequence := 0, lastTimestamp := ticks\<rparr>, w))"
    unfolding Let_def tick_of_def [symmetric]
  proof (intro conjI impI; (elim conjE)?)
    assume a: "tick_of g now = lastTimestamp g" "(sequence g + 1) mod 16 \<noteq> 0"
    show "getTimestamp now (g, w)
            = Some (tick_of g now,
                    g\<lparr>sequence := (sequence g + 1) mod 16, lastTimestamp := tick_of g now\<rparr>, w)"
      by (rule getTimestamp_same_tick [OF a])
  next
    assume a: "tick_of g now = lastTimestamp g" "(sequence g + 1) mod 16 = 0"
    show "getTimestamp now (g, w)
            = (case busy_wait now w of
                 None \<Rightarrow> None
               | Some w1 \<Rightarrow>
                   getTimestamp (fst (Date_now w1))
                     (g\<lparr>sequence := (sequence g + 1) mod 16\<rparr>, snd (Date_now w1)))"
      by (rule getTimestamp_wrap [OF a])
  next
    assume a: "tick_of g now \<noteq> lastTimestamp g"
    show "getTimestamp now (g, w)
            = Some (tick_of g now, g\<lparr>sequence := 0, lastTimestamp := tick_of g now\<rparr>, w)"
      by (rule getTimestamp_new_tick [OF a])
  qed
qed

theorem sequence_cursor_witness:
  "fst (new_generator (Some [0x12, 0x34, 0x56, 0x78]) (Some 0) (world_at running_clock))
     = Inr example_generator \<and>
   sequence example_generator = 0 \<and>
   (\<exists>r w'. generate (cursor_at 0 0, world_at running_clock) = Some (r, cursor_at 50000 0, w')) \<and>
   (\<exists>r w'. generate (cursor_at 50000 3, world_at running_clock)
             = Some (r, cursor_at 50000 4, w')) \<and>
   (\<exists>r g' w'. generate (cursor_at 50000 3, world_at running_clock) = Some (r, g', w') \<and>
               0 \<le> sequence g' \<and> sequence g' \<le> 15) \<and>
   (5 - epoch (cursor_at 50000 15)) * TICKS_PER_MILLISECOND = lastTimestamp (cursor_at 50000 15) \<and>
   (sequence (cursor_at 50000 15) + 1) mod 16 = 0 \<and>
   getTimestamp 5 (cursor_at 50000 15, world_at stepping_back_clock)
     = (case busy_wait 5 (world_at stepping_back_clock) of
          None \<Rightarrow> None
        | Some w1 \<Rightarrow> getTimestamp (fst (Date_now w1)) (cursor_at 50000 0, snd (Date_now w1)))"
proof -
  let ?w = "world_at running_clock"
  have new: "fst (new_generator (Some [0x12, 0x34, 0x56,
      0x78]) (Some 0) ?w) = Inr example_generator"
    by (simp add: new_generator_def example_generator_def)
  have 1: "sequence example_generator = 0"
    using sequence_cursor [of "Some [0x12, 0x34, 0x56, 0x78]" "Some 0" ?w example_generator] new
    by simp
  have 2: "\<exists>r w'. generate (cursor_at 0 0, ?w) = Some (r, cursor_at 50000 0, w')"
    using sequence_cursor [where g = "cursor_at 0 0" and w = ?w]
    by (simp add: Let_def cursor_at_def example_generator_def world_at_def running_clock_def
        TICKS_PER_MILLISECOND_def)
  have 3: "\<exists>r w'. generate (cursor_at 50000 3, ?w) = Some (r, cursor_at 50000 4, w')"
    using sequence_cursor [where g = "cursor_at 50000 3" and w = ?w]
    by (simp add: Let_def cursor_at_def example_generator_def world_at_def running_clock_def
        TICKS_PER_MILLISECOND_def)
  from 3 obtain r w' where gen: "generate (cursor_at 50000 3, ?w) = Some (r, cursor_at 50000 4, w')"
    by blast
  have 4: "\<exists>r g' w'. generate (cursor_at 50000 3, ?w) = Some (r, g', w') \<and>
               0 \<le> sequence g' \<and> sequence g' \<le> 15"
    using sequence_cursor [where g = "cursor_at 50000 3" and w = ?w and r = r
        and g' = "cursor_at 50000 4" and w' = w'] gen
    by blast
  have 5: "(5 - epoch (cursor_at 50000 15)) * TICKS_PER_MILLISECOND
             = lastTimestamp (cursor_at 50000 15)"
    "(sequence (cursor_at 50000 15) + 1) mod 16 = 0"
    by (simp_all add: cursor_at_def example_generator_def TICKS_PER_MILLISECOND_def)
  have g0: "(cursor_at 50000 15)\<lparr>sequence := (sequence (cursor_at 50000 15) + 1) mod 16\<rparr>
              = cursor_at 50000 0"
    by (simp add: cursor_at_def)
  have 6: "getTimestamp 5 (cursor_at 50000 15, world_at stepping_back_clock)
     = (case busy_wait 5 (world_at stepping_back_clock) of
          None \<Rightarrow> None
        | Some w1 \<Rightarrow> getTimestamp (fst (Date_now w1)) (cursor_at 50000 0, snd (Date_now w1)))"
    using sequence_cursor [where g = "cursor_at 50000 15" and w = "world_at stepping_back_clock"
        and now = 5, THEN conjunct2, THEN conjunct2, THEN conjunct2, unfolded Let_def,
        THEN conjunct2, THEN conjunct1, THEN mp, OF conjI [OF 5], unfolded g0]
    by this
  from new 1 2 3 4 5 6 show ?thesis by blast
qed

subsection \<open>A tick that differs from the stored one\<close>

text \<open>
  C10 fails on the code in what the identifier carries, for ticks from \<open>2 ^ 32\<close> on. The
  generator with epoch 1700000000000 issues an identifier at 1700000429498, which leaves
  the cursor at tick 4294980000; the clock then steps back to 1700000429497. The second
  call returns after one reading with sequence 0 and \<open>lastTimestamp\<close> 4294970000, the
  smaller tick, but bytes 0 to 5 of its identifier encode 2704 and \<open>extractTimestamp\<close>
  gives 0.2704 ms after the epoch for it, not 429497 ms.
\<close>

theorem stepped_back_tick_is_not_carried:
  "map_option (\<lambda>(r, g, w). (r, lastTimestamp g, sequence g, clock_reads w))
     (generate (recent_generator, world_at late_step_back_clock))
     = Some (Inr ''00000000-31A0-1230-5678-000000000000'', 4294980000, 0, 1) \<and>
   map_option (\<lambda>(r, g, w). (r, lastTimestamp g, sequence g, clock_reads w))
     (Option.bind (generate (recent_generator, world_at late_step_back_clock))
        (\<lambda>(r, gw). generate gw))
     = Some (Inr ''00000000-0A90-1230-5678-000000000000'', 4294970000, 0, 2) \<and>
   (late_step_back_clock 1 - epoch recent_generator) * TICKS_PER_MILLISECOND = 4294970000 \<and>
   guidToBuffer ''00000000-0A90-1230-5678-000000000000''
     = Inr [0x00, 0x00, 0x00, 0x00, 0x0A, 0x90, 0x12, 0x30, 0x56, 0x78, 0, 0, 0, 0, 0, 0] \<and>
   tick48 [0x00, 0x00, 0x00, 0x00, 0x0A, 0x90, 0x12, 0x30, 0x56, 0x78, 0, 0, 0, 0, 0, 0]
     = 2704 \<and>
   extractTimestamp recent_generator ''00000000-0A90-1230-5678-000000000000''
     = Inr (of_int (epoch recent_generator) + 2704 / 10000)"
proof (intro conjI)
  show "map_option (\<lambda>(r, g, w). (r, lastTimestamp g, sequence g, clock_reads w))
     (generate (recent_generator, world_at late_step_back_clock))
     = Some (Inr ''00000000-31A0-1230-5678-000000000000'', 4294980000, 0, 1)"
    by code_simp
  show "map_option (\<lambda>(r, g, w). (r, lastTimestamp g, sequence g, clock_reads w))
     (Option.bind (generate (recent_generator, world_at late_step_back_clock))
        (\<lambda>(r, gw). generate gw))
     = Some (Inr ''00000000-0A90-1230-5678-000000000000'', 4294970000, 0, 2)"
    by code_simp
  show "(late_step_back_clock 1 - epoch recent_generator) * TICKS_PER_MILLISECOND = 4294970000"
    by (simp add: late_step_back_clock_def recent_generator_def TICKS_PER_MILLISECOND_def)
  show "guidToBuffer ''00000000-0A90-1230-5678-000000000000''
     = Inr [0x00, 0x00, 0x00, 0x00, 0x0A, 0x90, 0x12, 0x30, 0x56, 0x78, 0, 0, 0, 0, 0, 0]"
    by (simp add: guidToBuffer_cases isValidGuid_spec spec_isValid_def is_hex_digit_def
        hex_value_def)
  show "tick48 [0x00, 0x00, 0x00, 0x00, 0x0A, 0x90, 0x12, 0x30, 0x56, 0x78, 0, 0, 0, 0, 0,
      0] = 2704"
    by (simp add: tick48_def)
  show "extractTimestamp recent_generator ''00000000-0A90-1230-5678-000000000000''
     = Inr (of_int (epoch recent_generator) + 2704 / 10000)"
    by code_simp
qed

text \<open>
  What holds for every tick: on a generator with a 4-byte machine id, when the tick
  computed from the clock reading differs from \<open>lastTimestamp\<close> (smaller or larger),
  \<open>generate\<close> returns an identifier after that single reading, with sequence 0 and
  \<open>lastTimestamp\<close> overwritten by the tick; the identifier's bytes 0 to 3 hold
  \<open>tick >>> 16\<close> and bytes 4 to 5 hold \<open>tick & 0xFFFF\<close>, and for a tick in
  \<open>[0, 2 ^ 31)\<close> \<open>extractTimestamp\<close> gives back the instant of that tick.
  \<open>generate\<close> reads the clock once unless the tick is equal and the sequence wraps; in
  that case alone it enters the busy wait, does not return when the wait does not, and
  otherwise returns after at least three readings.
\<close>

lemma generate_on_differing_tick:
  assumes len: "length (machineId g) = 4"
    and c: "c = (clock w (clock_reads w) - epoch g) * TICKS_PER_MILLISECOND"
  shows
    "(c \<noteq> lastTimestamp g \<longrightarrow>
        (\<exists>guid buf w'.
           generate (g, w) = Some (Inr guid, g\<lparr>sequence := 0, lastTimestamp := c\<rparr>, w') \<and>
           clock_reads w' = Suc (clock_reads w) \<and>
           guidToBuffer guid = Inr buf \<and>
           readUInt32BE buf 0 = Inr (js_ushr c 16) \<and>
           readUInt16BE buf 4 = Inr (js_and c 0xFFFF) \<and>
           (0 \<le> c \<and> c < 2 ^ 31 \<longrightarrow>
              extractTimestamp g guid
                = Inr (of_int (epoch g) + of_int c / of_int TICKS_PER_MILLISECOND)))) \<and>
     (\<not> (c = lastTimestamp g \<and> (sequence g + 1) mod 16 = 0) \<longrightarrow>
        (\<exists>guid g' w'. generate (g, w) = Some (Inr guid, g', w') \<and>
                       clock_reads w' = Suc (clock_reads w))) \<and>
     (c = lastTimestamp g \<and> (sequence g + 1) mod 16 = 0 \<longrightarrow>
        (generate (g, w) = None \<longleftrightarrow>
           busy_wait (clock w (clock_reads w)) (w\<lparr>clock_reads := Suc (clock_reads w)\<rparr>) = None) \<and>
        (\<forall>r g' w'. generate (g, w) = Some (r, g', w') \<longrightarrow> clock_reads w + 3 \<le> clock_reads w'))"
proof (intro conjI impI)
  assume new: "c \<noteq> lastTimestamp g"
  let ?g = "g\<lparr>sequence := 0, lastTimestamp := c\<rparr>"
  let ?guid = "formatGuid (prefix_bytes c ?g @ drawn w)"
  let ?w = "w\<lparr>clock_reads := Suc (clock_reads w), entropy_used := entropy_used w + 6\<rparr>"
  have 1: "generate (g, w) = Some (Inr ?guid, ?g, ?w)"
    by (rule generate_new_tick [OF len c new])
  have 2: "guidToBuffer ?guid = Inr (prefix_bytes c ?g @ drawn w)" by (rule guid_of_prefix)
  have 3: "0 \<le> c \<and> c < 2 ^ 31 \<longrightarrow>
             extractTimestamp g ?guid = Inr (of_int (epoch g) + of_int c / of_int TICKS_PER_MILLISECOND)"
    using extractTimestamp_generated [of c g ?g w] by simp
  show "\<exists>guid buf w'.
           generate (g, w) = Some (Inr guid, ?g, w') \<and>
           clock_reads w' = Suc (clock_reads w) \<and>
           guidToBuffer guid = Inr buf \<and>
           readUInt32BE buf 0 = Inr (js_ushr c 16) \<and>
           readUInt16BE buf 4 = Inr (js_and c 0xFFFF) \<and>
           (0 \<le> c \<and> c < 2 ^ 31 \<longrightarrow>
              extractTimestamp g guid
                = Inr (of_int (epoch g) + of_int c / of_int TICKS_PER_MILLISECOND))"
    apply (rule exI [of _ ?guid])
    apply (rule exI [of _ "prefix_bytes c ?g @ drawn w"])
    apply (rule exI [of _ ?w])
    using 1 2 3 prefix_reads [of c ?g "drawn w"] apply simp
    done
next
  assume nowrap: "\<not> (c = lastTimestamp g \<and> (sequence g + 1) mod 16 = 0)"
  show "\<exists>guid g' w'. generate (g, w) = Some (Inr guid, g', w') \<and>
                       clock_reads w' = Suc (clock_reads w)"
  proof (cases "c = lastTimestamp g")
    case True
    with nowrap have "(sequence g + 1) mod 16 \<noteq> 0" by simp
    from generate_same_tick [OF len c True this] show ?thesis by simp
  next
    case False
    from generate_new_tick [OF len c False] show ?thesis by simp
  qed
next
  assume wrap: "c = lastTimestamp g \<and> (sequence g + 1) mod 16 = 0"
  then have w1: "c = lastTimestamp g" and w2: "(sequence g + 1) mod 16 = 0" by simp_all
  note gw = generate_wrap [OF len c w1 w2]
  show "generate (g, w) = None \<longleftrightarrow>
          busy_wait (clock w (clock_reads w)) (w\<lparr>clock_reads := Suc (clock_reads w)\<rparr>) = None"
    unfolding gw by (simp add: Let_def split: option.splits)
  show "\<forall>r g' w'. generate (g, w) = Some (r, g', w') \<longrightarrow> clock_reads w + 3 \<le> clock_reads w'"
  proof (intro allI impI)
    fix r g' w'
    assume "generate (g, w) = Some (r, g', w')"
    then obtain w1 where
      bw: "busy_wait (clock w (clock_reads w)) (w\<lparr>clock_reads := Suc (clock_reads w)\<rparr>) = Some w1"
      and w': "w' = w1\<lparr>clock_reads := Suc (clock_reads w1), entropy_used := entropy_used w1 + 6\<rparr>"
      unfolding gw by (auto simp: Let_def split: option.splits)
    from busy_wait_Some [OF bw] have "Suc (clock_reads w) < clock_reads w1" by simp
    with w' show "clock_reads w + 3 \<le> clock_reads w'" by simp
  qed
qed

lemma generate_on_differing_tick_example:
  "length (machineId (cursor_at 60000 7)) = 4 \<and>
   (50000 :: int) = (clock stepped_back_world (clock_reads stepped_back_world)
                       - epoch (cursor_at 60000 7)) * TICKS_PER_MILLISECOND \<and>
   (50000 :: int) < lastTimestamp (cursor_at 60000 7) \<and>
   (\<exists>guid buf w'.
      generate (cursor_at 60000 7, stepped_back_world) = Some (Inr guid, cursor_at 50000 0, w') \<and>
      clock_reads w' = Suc (clock_reads stepped_back_world) \<and>
      guidToBuffer guid = Inr buf \<and>
      readUInt32BE buf 0 = Inr 0 \<and> readUInt16BE buf 4 = Inr 50000 \<and>
      extractTimestamp (cursor_at 60000 7) guid = Inr 5) \<and>
   (5 - epoch (cursor_at 50000 15)) * TICKS_PER_MILLISECOND = lastTimestamp (cursor_at 50000 15) \<and>
   (sequence (cursor_at 50000 15) + 1) mod 16 = 0 \<and>
   generate (cursor_at 50000 15, world_at stepping_back_clock) \<noteq> None \<and>
   map_option (\<lambda>(r, g, w). (r, sequence g, clock_reads w))
     (generate (cursor_at 50000 15, world_at stepping_back_clock))
     = Some (Inr ''00000000-C350-1231-5678-000000000000'', 1, 3)"
proof -
  let ?g = "cursor_at 60000 7" and ?w = stepped_back_world
  have len: "length (machineId ?g) = 4" by (simp add: cursor_at_def example_generator_def)
  have c: "(50000 :: int) = (clock ?w (clock_reads ?w) - epoch ?g) * TICKS_PER_MILLISECOND"
    by (simp add: stepped_back_world_def world_at_def stepping_back_clock_def cursor_at_def
        example_generator_def TICKS_PER_MILLISECOND_def)
  have lt: "(50000 :: int) < lastTimestamp ?g" by (simp add: cursor_at_def)
  have g0: "?g\<lparr>sequence := 0, lastTimestamp := 50000\<rparr> = cursor_at 50000 0"
    by (simp add: cursor_at_def)
  have v: "js_ushr 50000 16 = 0" "js_and 50000 65535 = 50000"
    "of_int (epoch ?g) + of_int 50000 / of_int TICKS_PER_MILLISECOND = (5 :: rat)"
    by (simp_all add: js_ushr_16 js_and_FFFF cursor_at_def example_generator_def
        TICKS_PER_MILLISECOND_def)
  have A: "\<exists>guid buf w'.
      generate (?g, ?w) = Some (Inr guid, cursor_at 50000 0, w') \<and>
      clock_reads w' = Suc (clock_reads ?w) \<and>
      guidToBuffer guid = Inr buf \<and>
      readUInt32BE buf 0 = Inr 0 \<and> readUInt16BE buf 4 = Inr 50000 \<and>
      extractTimestamp ?g guid = Inr 5"
    using generate_on_differing_tick [OF len c, THEN conjunct1, THEN mp, unfolded g0 v] lt
    by simp
  let ?h = "cursor_at 50000 15" and ?v = "world_at stepping_back_clock"
  have len': "length (machineId ?h) = 4" by (simp add: cursor_at_def example_generator_def)
  have c': "(50000 :: int) = (clock ?v (clock_reads ?v) - epoch ?h) * TICKS_PER_MILLISECOND"
    by (simp add: world_at_def stepping_back_clock_def cursor_at_def
        example_generator_def TICKS_PER_MILLISECOND_def)
  have wrap: "(5 - epoch ?h) * TICKS_PER_MILLISECOND = lastTimestamp ?h"
    "(sequence ?h + 1) mod 16 = 0"
    by (simp_all add: cursor_at_def example_generator_def TICKS_PER_MILLISECOND_def)
  have bw: "busy_wait (clock ?v (clock_reads ?v)) (?v\<lparr>clock_reads := Suc (clock_reads ?v)\<rparr>)
              \<noteq> None"
    by (subst busy_wait.simps)
       (simp add: world_at_def stepping_back_clock_def Date_now_def)
  have B: "generate (?h, ?v) \<noteq> None"
    using generate_on_differing_tick [OF len' c', THEN conjunct2, THEN conjunct2] bw
    by (simp add: cursor_at_def)
  have C: "map_option (\<lambda>(r, g, w). (r, sequence g, clock_reads w)) (generate (?h, ?v))
             = Some (Inr ''00000000-C350-1231-5678-000000000000'', 1, 3)"
    by code_simp
  from len c lt A wrap B C show ?thesis by blast
qed

subsection \<open>Batches\<close>

text \<open>
  C8, as the claim states it, fails: the clock may step back between two calls, and then
  two identifiers of one batch carry the same tick and sequence; with equal random bytes
  they are equal.
\<close>

theorem generateBatch_repeats_after_clock_step_back:
  "map_option fst (generateBatch 3 (example_generator, world_at stepping_back_clock))
     = Some (Inr [''00000000-C350-1230-5678-000000000000'',
                  ''00000000-EA60-1230-5678-000000000000'',
                  ''00000000-C350-1230-5678-000000000000'']) \<and>
   \<not> distinct [''00000000-C350-1230-5678-000000000000'',
                 ''00000000-EA60-1230-5678-000000000000'',
                 ''00000000-C350-1230-5678-000000000000'']"
proof
  show "map_option fst (generateBatch 3 (example_generator, world_at stepping_back_clock))
          = Some (Inr [''00000000-C350-1230-5678-000000000000'',
                       ''00000000-EA60-1230-5678-000000000000'',
                       ''00000000-C350-1230-5678-000000000000''])"
    by code_simp
  show "\<not> distinct [''00000000-C350-1230-5678-000000000000'',
                      ''00000000-EA60-1230-5678-000000000000'',
                      ''00000000-C350-1230-5678-000000000000'']"
    by simp
qed

text \<open>
  C8, amended: for \<open>count \<le> 0\<close> \<open>generateBatch\<close> fails with \<open>InvalidCount\<close> and leaves
  generator and world untouched. For \<open>count > 0\<close> it is the batch of the specification:
  the identifiers of \<open>count\<close> successive calls of \<open>generate\<close>, in the order of the
  calls. On a generator with a 4-byte machine id it returns whenever the clock keeps
  advancing, and whenever it returns the result is a list of exactly \<open>count\<close> valid
  identifiers. They are pairwise distinct when the clock readings are non-decreasing and
  no two readings taken during the batch have ticks a positive multiple of \<open>2 ^ 32\<close>
  apart; by \<open>short_batch_alias_free\<close> that holds for every batch whose readings span less
  than \<open>2 ^ 28\<close> ms. Nothing is asked of the epoch or of the cursor the batch starts from.
\<close>

theorem generateBatch_contract:
  "(count \<le> 0 \<longrightarrow> generateBatch count (g, w) = Some (Inl InvalidCount, g, w)) \<and>
   (0 < count \<longrightarrow> generateBatch count (g, w) = generate_in_order (nat count) (g, w)) \<and>
   (0 < count \<and> length (machineId g) = 4 \<longrightarrow>
      (clock_advances (clock w) \<longrightarrow> generateBatch count (g, w) \<noteq> None) \<and>
      (\<forall>res g' w'. generateBatch count (g, w) = Some (res, g', w') \<longrightarrow>
         (\<exists>ids. res = Inr ids \<and> int (length ids) = count \<and> list_all isValidGuid ids \<and>
            (mono (clock w) \<and> ticks_alias_free (clock w) (clock_reads w) (clock_reads w')
             \<longrightarrow> distinct ids))))"
proof (intro conjI impI allI)
  assume "count \<le> 0"
  then show "generateBatch count (g, w) = Some (Inl InvalidCount, g, w)"
    by (simp add: generateBatch_def)
next
  assume "0 < count"
  then show "generateBatch count (g, w) = generate_in_order (nat count) (g, w)"
    by (rule generateBatch_in_order)
next
  assume "0 < count \<and> length (machineId g) = 4" and "clock_advances (clock w)"
  then show "generateBatch count (g, w) \<noteq> None"
    using batch_loop_returns [of "(g, w)" 0 count "[]"] by (auto simp: generateBatch_def)
next
  fix res g' w'
  assume pos: "0 < count \<and> length (machineId g) = 4"
    and run: "generateBatch count (g, w) = Some (res, g', w')"
  from pos run have loop: "batch_loop 0 count [] (g, w) = Some (res, g', w')"
    by (simp add: generateBatch_def)
  from batch_loop_shape [OF _ loop] pos obtain ids where
    ids: "res = Inr ids" "int (length ids) = count" "list_all isValidGuid ids" by auto
  have "distinct ids"
    if h: "mono (clock w) \<and> ticks_alias_free (clock w) (clock_reads w) (clock_reads w')"
  proof -
    have "\<exists>new Ks. ids = [] @ new \<and> map guid_key new = map (\<lambda>K. K mod 2 ^ 36) Ks \<and>
           sorted_wrt (<) Ks \<and>
           (\<forall>K \<in> set Ks. \<exists>m. clock_reads (snd (g, w)) \<le> m \<and> m < clock_reads (snd (g', w')) \<and>
                             K div 16 = tick_of (fst (g, w)) (clock (snd (g, w)) m)) \<and>
           (lastTimestamp (fst (g, w))
              \<le> tick_of (fst (g, w)) (clock (snd (g, w)) (clock_reads (snd (g, w)))) \<and>
            0 \<le> sequence (fst (g, w)) \<and> sequence (fst (g, w)) \<le> 15
            \<longrightarrow> (\<forall>K \<in> set Ks. cursor_key (fst (g, w)) < K))"
      by (rule batch_loop_keys [OF _ _ loop [unfolded ids(1)]]) (use h pos in simp_all)
    then obtain Ks where Ks: "map guid_key ids = map (\<lambda>K. K mod 2 ^ 36) Ks"
      "sorted_wrt (<) Ks"
      "\<forall>K \<in> set Ks. \<exists>m. clock_reads w \<le> m \<and> m < clock_reads w' \<and>
                        K div 16 = tick_of g (clock w m)"
      by (simp only: append_Nil fst_conv snd_conv) blast
    from h have "ticks_alias_free (clock w) (clock_reads w) (clock_reads w')" by simp
    from alias_free_distinct [OF Ks this] show ?thesis .
  qed
  with ids show "\<exists>ids. res = Inr ids \<and> int (length ids) = count \<and> list_all isValidGuid ids \<and>
            (mono (clock w) \<and> ticks_alias_free (clock w) (clock_reads w) (clock_reads w')
             \<longrightarrow> distinct ids)" by blast
qed

theorem generateBatch_contract_witness:
  "(0 :: int) < 3 \<and> length (machineId default_generator) = 4 \<and>
   clock_advances (clock (world_at wall_clock)) \<and> mono (clock (world_at wall_clock)) \<and>
   generateBatch 3 (default_generator, world_at wall_clock) \<noteq> None \<and>
   generateBatch 3 (default_generator, world_at wall_clock)
     = generate_in_order 3 (default_generator, world_at wall_clock) \<and>
   map_option (\<lambda>(r, g, w). (r, clock_reads w))
       (generateBatch 3 (default_generator, world_at wall_clock))
     = Some (Inr [''0000CE41-8000-1230-5678-000000000000'',
                  ''0000CE41-8000-1231-5678-000000000000'',
                  ''0000CE41-8000-1232-5678-000000000000''], 3) \<and>
   ticks_alias_free (clock (world_at wall_clock)) (clock_reads (world_at wall_clock)) 3 \<and>
   distinct [''0000CE41-8000-1230-5678-000000000000'',
       ''0000CE41-8000-1231-5678-000000000000'',
       ''0000CE41-8000-1232-5678-000000000000''] \<and>
   generateBatch 0 (default_generator, world_at wall_clock)
     = Some (Inl InvalidCount, default_generator, world_at wall_clock)"
proof -
  let ?g = default_generator and ?w = "world_at wall_clock"
  note T = generateBatch_contract [of 3 ?g ?w]
  have pos: "(0 :: int) < 3 \<and> length (machineId ?g) = 4" by (simp add: default_generator_def)
  have adv: "clock_advances (clock ?w)" by (simp add: world_at_def wall_clock_advances)
  have mono: "mono (clock ?w)" by (simp add: world_at_def mono_wall_clock)
  have ev: "map_option (\<lambda>(r, g, w). (r, clock_reads w)) (generateBatch 3 (?g, ?w))
     = Some (Inr [''0000CE41-8000-1230-5678-000000000000'',
                  ''0000CE41-8000-1231-5678-000000000000'',
                  ''0000CE41-8000-1232-5678-000000000000''], 3)"
    by code_simp
  from T [THEN conjunct2, THEN conjunct1, THEN mp] 
  have ord: "generateBatch 3 (?g, ?w) = generate_in_order 3 (?g, ?w)" by simp
  from T [THEN conjunct2, THEN conjunct2, THEN mp, OF pos, THEN conjunct1, THEN mp, OF adv]
  have ret: "generateBatch 3 (?g, ?w) \<noteq> None" .
  then obtain res g' w' where run: "generateBatch 3 (?g, ?w) = Some (res, g', w')"
    by (metis not_None_eq prod_cases3)
  with ev have res: "res = Inr [''0000CE41-8000-1230-5678-000000000000'',
                                ''0000CE41-8000-1231-5678-000000000000'',
                                ''0000CE41-8000-1232-5678-000000000000'']"
    and reads: "clock_reads w' = 3" by simp_all
  have free: "ticks_alias_free (clock ?w) (clock_reads ?w) 3"
    by (rule short_batch_alias_free [OF mono])
       (simp add: world_at_def wall_clock_def)
  have hyp: "mono (clock ?w) \<and> ticks_alias_free (clock ?w) (clock_reads ?w) (clock_reads w')"
    using mono free unfolding reads by simp
  from T [THEN conjunct2, THEN conjunct2, THEN mp, OF pos, THEN conjunct2, rule_format, OF run]
    res hyp
  have dist: "distinct [''0000CE41-8000-1230-5678-000000000000'',
                        ''0000CE41-8000-1231-5678-000000000000'',
                        ''0000CE41-8000-1232-5678-000000000000'']"
    by auto
  have zero: "generateBatch 0 (?g, ?w) = Some (Inl InvalidCount, ?g, ?w)"
    using generateBatch_contract [of 0 ?g ?w] by simp
  from pos adv mono ret ord ev free dist zero show ?thesis by blast
qed

subsection \<open>The 48-bit tick field\<close>

text \<open>
  C3 fails on the code for ticks from \<open>2 ^ 32\<close> on: \<open>timestamp >>> 16\<close> is computed on
  32 bits. At 429497 ms after the epoch the tick is 4294970000, whose high 32 bits are
  65536; \<open>generate\<close> writes 0 at offsets 0 to 3, and bytes 0 to 5 encode 2704.
\<close>

theorem generate_drops_tick_bits_above_32:
  "map_option (\<lambda>(r, g, w). (r, lastTimestamp g))
     (generate (recent_generator, (world_at ticking_clock)\<lparr>clock_reads := 1\<rparr>))
     = Some (Inr ''00000000-0A90-1230-5678-000000000000'', 4294970000) \<and>
   guidToBuffer ''00000000-0A90-1230-5678-000000000000''
     = Inr [0x00, 0x00, 0x00, 0x00, 0x0A, 0x90, 0x12, 0x30, 0x56, 0x78, 0, 0, 0, 0, 0, 0] \<and>
   readUInt32BE [0x00, 0x00, 0x00, 0x00, 0x0A, 0x90, 0x12, 0x30, 0x56, 0x78, 0, 0, 0, 0, 0, 0] 0
     = Inr 0 \<and>
   (4294970000 :: int) div 2 ^ 16 = 65536 \<and>
   tick48 [0x00, 0x00, 0x00, 0x00, 0x0A, 0x90, 0x12, 0x30, 0x56, 0x78, 0, 0, 0, 0, 0, 0] = 2704"
proof (intro conjI)
  show "map_option (\<lambda>(r, g, w). (r, lastTimestamp g))
     (generate (recent_generator, (world_at ticking_clock)\<lparr>clock_reads := 1\<rparr>))
     = Some (Inr ''00000000-0A90-1230-5678-000000000000'', 4294970000)"
    by code_simp
  show "guidToBuffer ''00000000-0A90-1230-5678-000000000000''
     = Inr [0x00, 0x00, 0x00, 0x00, 0x0A, 0x90, 0x12, 0x30, 0x56, 0x78, 0, 0, 0, 0, 0, 0]"
    by (simp add: guidToBuffer_cases isValidGuid_spec spec_isValid_def is_hex_digit_def
        hex_value_def)
  show "readUInt32BE [0x00, 0x00, 0x00, 0x00, 0x0A, 0x90, 0x12, 0x30, 0x56, 0x78, 0, 0, 0, 0, 0,
      0] 0
     = Inr 0"
    by (simp add: readUInt32BE_def)
  show "(4294970000 :: int) div 2 ^ 16 = 65536" by simp
  show "tick48 [0x00, 0x00, 0x00, 0x00, 0x0A, 0x90, 0x12, 0x30, 0x56, 0x78, 0, 0, 0, 0, 0,
      0] = 2704"
    by (simp add: tick48_def)
qed

text \<open>
  C1 fails on the code for the same reason: under the non-decreasing clock that reads
  429496 ms and then 429497 ms after the epoch, the first ten bytes of the second
  identifier are lexicographically below those of the first.
\<close>

theorem sortable_prefix_wraps_at_32_bits:
  "mono (clock (world_at ticking_clock)) \<and>
   map_option fst (generateBatch 2 (recent_generator, world_at ticking_clock))
     = Some (Inr [''0000FFFF-E380-1230-5678-000000000000'',
                  ''00000000-0A90-1230-5678-000000000000'']) \<and>
   guidToBuffer ''0000FFFF-E380-1230-5678-000000000000''
     = Inr [0x00, 0x00, 0xFF, 0xFF, 0xE3, 0x80, 0x12, 0x30, 0x56, 0x78, 0, 0, 0, 0, 0, 0] \<and>
   guidToBuffer ''00000000-0A90-1230-5678-000000000000''
     = Inr [0x00, 0x00, 0x00, 0x00, 0x0A, 0x90, 0x12, 0x30, 0x56, 0x78, 0, 0, 0, 0, 0, 0] \<and>
   \<not> bytes_le
       (take 10 [0x00, 0x00, 0xFF, 0xFF, 0xE3, 0x80, 0x12, 0x30, 0x56, 0x78, 0, 0, 0, 0, 0, 0])
       (take 10 [0x00, 0x00, 0x00, 0x00, 0x0A, 0x90, 0x12, 0x30, 0x56, 0x78, 0, 0, 0, 0, 0, 0])"
proof (intro conjI)
  show "mono (clock (world_at ticking_clock))" by (simp add: world_at_def mono_ticking_clock)
  show "map_option fst (generateBatch 2 (recent_generator, world_at ticking_clock))
     = Some (Inr [''0000FFFF-E380-1230-5678-000000000000'',
                  ''00000000-0A90-1230-5678-000000000000''])"
    by code_simp
  show "guidToBuffer ''0000FFFF-E380-1230-5678-000000000000''
     = Inr [0x00, 0x00, 0xFF, 0xFF, 0xE3, 0x80, 0x12, 0x30, 0x56, 0x78, 0, 0, 0, 0, 0, 0]"
    by (simp add: guidToBuffer_cases isValidGuid_spec spec_isValid_def is_hex_digit_def
        hex_value_def)
  show "guidToBuffer ''00000000-0A90-1230-5678-000000000000''
     = Inr [0x00, 0x00, 0x00, 0x00, 0x0A, 0x90, 0x12, 0x30, 0x56, 0x78, 0, 0, 0, 0, 0, 0]"
    by (simp add: guidToBuffer_cases isValidGuid_spec spec_isValid_def is_hex_digit_def
        hex_value_def)
  show "\<not> bytes_le
       (take 10 [0x00, 0x00, 0xFF, 0xFF, 0xE3, 0x80, 0x12, 0x30, 0x56, 0x78, 0, 0, 0, 0, 0, 0])
       (take 10 [0x00, 0x00, 0x00, 0x00, 0x0A, 0x90, 0x12, 0x30, 0x56, 0x78, 0, 0, 0, 0, 0, 0])"
    by simp
qed

text \<open>
  C4 fails on the code: \<open>(timestampHigh << 16) | timestampLow\<close> is a signed 32-bit
  value. The identifier that \<open>generate\<close> issues 214749 ms after the epoch has 2147490000
  in bytes 0 to 5, and \<open>extractTimestamp\<close> returns the epoch minus 214747.7296 ms for it.
\<close>

theorem extractTimestamp_reads_a_signed_32_bit_tick:
  "map_option (\<lambda>(r, g, w). (r, lastTimestamp g))
     (generate (recent_generator, world_at half_window_clock))
     = Some (Inr ''00008000-18D0-1230-5678-000000000000'', 2147490000) \<and>
   guidToBuffer ''00008000-18D0-1230-5678-000000000000''
     = Inr [0x00, 0x00, 0x80, 0x00, 0x18, 0xD0, 0x12, 0x30, 0x56, 0x78, 0, 0, 0, 0, 0, 0] \<and>
   tick48 [0x00, 0x00, 0x80, 0x00, 0x18, 0xD0, 0x12, 0x30, 0x56, 0x78, 0, 0, 0, 0, 0, 0]
     = 2147490000 \<and>
   extractTimestamp recent_generator ''00008000-18D0-1230-5678-000000000000''
     = Inr (of_int (epoch recent_generator) - 2147477296 / 10000) \<and>
   extractTimestamp recent_generator ''00008000-18D0-1230-5678-000000000000''
     \<noteq> Inr (of_int (epoch recent_generator) + 2147490000 / 10000)"
proof (intro conjI)
  show "map_option (\<lambda>(r, g, w). (r, lastTimestamp g))
     (generate (recent_generator, world_at half_window_clock))
     = Some (Inr ''00008000-18D0-1230-5678-000000000000'', 2147490000)"
    by code_simp
  show "guidToBuffer ''00008000-18D0-1230-5678-000000000000''
     = Inr [0x00, 0x00, 0x80, 0x00, 0x18, 0xD0, 0x12, 0x30, 0x56, 0x78, 0, 0, 0, 0, 0, 0]"
    by (simp add: guidToBuffer_cases isValidGuid_spec spec_isValid_def is_hex_digit_def
        hex_value_def)
  show "tick48 [0x00, 0x00, 0x80, 0x00, 0x18, 0xD0, 0x12, 0x30, 0x56, 0x78, 0, 0, 0, 0, 0, 0]
     = 2147490000"
    by (simp add: tick48_def)
  show e: "extractTimestamp recent_generator ''00008000-18D0-1230-5678-000000000000''
     = Inr (of_int (epoch recent_generator) - 2147477296 / 10000)"
    by code_simp
  show "extractTimestamp recent_generator ''00008000-18D0-1230-5678-000000000000''
     \<noteq> Inr (of_int (epoch recent_generator) + 2147490000 / 10000)"
    unfolding e by (simp add: recent_generator_def)
qed

end
